theory Spec2Isabelle
  imports Main "HOL-Library.Word"
begin

section \<open>The value model of BMJson.h\<close>

text \<open>
  \<^verbatim>\<open>JsonValue\<close> is a \<^verbatim>\<open>std::variant\<close> over eight alternatives, in this order:
  \<^verbatim>\<open>UndefinedValue, nullptr_t, bool, int64_t, double, std::string,
  shared_ptr<JsonArray>, shared_ptr<JsonObject>\<close>. A default-constructed value holds
  the first alternative. The payload of the \<^verbatim>\<open>double\<close> alternative is the type
  parameter \<open>'f\<close>: the header converts it only through \<^verbatim>\<open>std::stod\<close> and
  \<^verbatim>\<open>std::to_string\<close>, which are parameters of the model (record \<open>platform\<close>).

  \<^verbatim>\<open>JsonArray\<close> wraps a \<^verbatim>\<open>std::vector<JsonValue>\<close>; \<^verbatim>\<open>JsonObject\<close> wraps a
  \<^verbatim>\<open>std::unordered_map<std::string, JsonValue>\<close>, modelled as an association list
  whose order is the iteration order of the map. The two container alternatives hold
  the pointed-to container; the null state of a \<^verbatim>\<open>shared_ptr\<close> is represented where
  the header produces it on purpose: as the \<open>None\<close> result of \<open>ParseArray\<close> and
  \<open>ParseObject\<close>, and in the field \<open>RootObject\<close>.
\<close>

datatype 'f JsonValue =
    UndefinedValue
  | Null
  | Bool bool
  | Int64 "64 word"
  | Double 'f
  | String string
  | ArrayPtr "'f JsonValue list"
  | ObjectPtr "(string \<times> 'f JsonValue) list"

type_synonym 'f JsonArray = "'f JsonValue list"
type_synonym 'f JsonObject = "(string \<times> 'f JsonValue) list"

text \<open>The template argument of \<^verbatim>\<open>HasType<T>\<close>, after \<^verbatim>\<open>TJsonValueTypeConverter\<close>.\<close>

datatype json_type =
    T_UndefinedValue | T_nullptr | T_bool | T_int64 | T_double | T_string
  | T_JsonArray | T_JsonObject

fun HasType :: "json_type \<Rightarrow> 'f JsonValue \<Rightarrow> bool" where
  "HasType T_UndefinedValue v = (case v of UndefinedValue \<Rightarrow> True | _ \<Rightarrow> False)"
| "HasType T_nullptr v = (case v of Null \<Rightarrow> True | _ \<Rightarrow> False)"
| "HasType T_bool v = (case v of Bool b \<Rightarrow> True | _ \<Rightarrow> False)"
| "HasType T_int64 v = (case v of Int64 n \<Rightarrow> True | _ \<Rightarrow> False)"
| "HasType T_double v = (case v of Double d \<Rightarrow> True | _ \<Rightarrow> False)"
| "HasType T_string v = (case v of String s \<Rightarrow> True | _ \<Rightarrow> False)"
| "HasType T_JsonArray v = (case v of ArrayPtr a \<Rightarrow> True | _ \<Rightarrow> False)"
| "HasType T_JsonObject v = (case v of ObjectPtr a \<Rightarrow> True | _ \<Rightarrow> False)"

text \<open>The concept \<^verbatim>\<open>CIsValidJsonGetValue\<close>: the types a typed read may ask for.\<close>

fun CIsValidJsonGetValue :: "json_type \<Rightarrow> bool" where
  "CIsValidJsonGetValue T_UndefinedValue = False"
| "CIsValidJsonGetValue T_nullptr = False"
| "CIsValidJsonGetValue T = True"

text \<open>The C++ exceptions the header throws or lets through.\<close>

datatype exception =
    runtime_error string
  | out_of_range
  | invalid_argument

section \<open>Containers and accessors\<close>

text \<open>
  \<^verbatim>\<open>Properties.find(Key)\<close>, \<^verbatim>\<open>Properties[Key]\<close> (which inserts a default-constructed
  value under a missing key) and \<^verbatim>\<open>Properties.emplace(Key, Value)\<close> (which leaves an
  existing entry alone). The list stands for the entries in the order in which the map
  is iterated, which \<^verbatim>\<open>std::unordered_map\<close> leaves unspecified. A new entry is put at the
  end here. Where an entry stands shows in the serialised text only, and what is stated
  about the text of an object with an undefined member holds for every position of that
  member among the others.
\<close>

definition Properties_find :: "'f JsonObject \<Rightarrow> string \<Rightarrow> 'f JsonValue option" where
  "Properties_find Properties Key = map_of Properties Key"

definition Properties_index :: "'f JsonObject \<Rightarrow> string \<Rightarrow> 'f JsonObject" where
  "Properties_index Properties Key =
     (case map_of Properties Key of
        Some v \<Rightarrow> Properties
      | None \<Rightarrow> Properties @ [(Key, UndefinedValue)])"

definition Properties_emplace :: "'f JsonObject \<Rightarrow> string \<Rightarrow> 'f JsonValue \<Rightarrow> 'f JsonObject" where
  "Properties_emplace Properties Key v =
     (case map_of Properties Key of
        Some w \<Rightarrow> Properties
      | None \<Rightarrow> Properties @ [(Key, v)])"

text \<open>
  A \<^verbatim>\<open>JsonValueWrapper\<close> holds a reference \<^verbatim>\<open>Value\<close> to one slot. The slot is either
  the entry of the object under a key, or the function-local
  \<^verbatim>\<open>static JsonValue EmptyValue = UndefinedValue{}\<close> of the const \<^verbatim>\<open>operator[]\<close>,
  which is only ever handed out behind a const wrapper and so stays undefined.
\<close>

datatype slot_ref = Property string | EmptyValue

definition slot_value :: "'f JsonObject \<Rightarrow> slot_ref \<Rightarrow> 'f JsonValue" where
  "slot_value Properties r =
     (case r of
        EmptyValue \<Rightarrow> UndefinedValue
      | Property k \<Rightarrow> (case map_of Properties k of Some v \<Rightarrow> v | None \<Rightarrow> UndefinedValue))"

text \<open>\<^verbatim>\<open>JsonObject::operator[]\<close>: the object after the call and the slot the wrapper is bound to.\<close>

definition JsonObject_index :: "'f JsonObject \<Rightarrow> string \<Rightarrow> 'f JsonObject \<times> slot_ref" where
  "JsonObject_index Properties Key = (Properties_index Properties Key, Property Key)"

text \<open>\<^verbatim>\<open>JsonObject::operator[] const\<close>.\<close>

definition JsonObject_index_const :: "'f JsonObject \<Rightarrow> string \<Rightarrow> 'f JsonObject \<times> slot_ref" where
  "JsonObject_index_const Properties Key =
     (case Properties_find Properties Key of
        Some v \<Rightarrow> (Properties, Property Key)
      | None \<Rightarrow> (Properties, EmptyValue))"

text \<open>
  \<^verbatim>\<open>JsonArray::operator[]\<close> (both overloads) is \<^verbatim>\<open>Values.at(Index)\<close>, which throws
  \<^verbatim>\<open>std::out_of_range\<close> when \<^verbatim>\<open>Index >= size()\<close>; otherwise the wrapper is bound to
  the element, whose value is returned here.
\<close>

definition JsonArray_index :: "'f JsonArray \<Rightarrow> nat \<Rightarrow> exception + 'f JsonValue" where
  "JsonArray_index Values Index =
     (if Index < length Values then Inr (Values ! Index) else Inl out_of_range)"

text \<open>
  \<^verbatim>\<open>Get_Internal<T>\<close> of a wrapper without default whose \<^verbatim>\<open>bIsConst\<close> is true: the
  branch \<^verbatim>\<open>if constexpr(bIsConst)\<close>. It returns the object, which it cannot write, and the
  value read.
\<close>

definition Get_Internal_const ::
  "json_type \<Rightarrow> 'f JsonObject \<Rightarrow> slot_ref \<Rightarrow> exception + ('f JsonObject \<times> 'f JsonValue)" where
  "Get_Internal_const T Properties r =
     (if \<not> HasType T (slot_value Properties r)
      then Inl (runtime_error ''Field is not of the requested type'')
      else Inr (Properties, slot_value Properties r))"

text \<open>
  \<^verbatim>\<open>Or(OrInit)\<close> builds a wrapper on the same slot with \<^verbatim>\<open>DefaultValue.Value\<close> set;
  \<^verbatim>\<open>Get_Internal<T>\<close> with \<^verbatim>\<open>bHasOr\<close> reads the slot, then the default, and assigns to
  neither.
\<close>

record 'f JsonValueWrapper_Or =
  Value_ref :: slot_ref
  DefaultValue :: "'f JsonValue"

definition Or :: "slot_ref \<Rightarrow> 'f JsonValue \<Rightarrow> 'f JsonValueWrapper_Or" where
  "Or r OrInit = \<lparr>Value_ref = r, DefaultValue = OrInit\<rparr>"

definition Get_Internal_Or ::
  "json_type \<Rightarrow> 'f JsonObject \<Rightarrow> 'f JsonValueWrapper_Or \<Rightarrow>
     exception + ('f JsonObject \<times> 'f JsonValue)" where
  "Get_Internal_Or T Properties w =
     (if \<not> HasType T (slot_value Properties (Value_ref w))
      then (if \<not> HasType T (DefaultValue w)
            then Inl (runtime_error ''Or value is not of the requested type'')
            else Inr (Properties, DefaultValue w))
      else Inr (Properties, slot_value Properties (Value_ref w)))"

text \<open>
  \<^verbatim>\<open>Else(Func)\<close> of a wrapper without default: the callback, a transformer of
  the caller's state, runs exactly when the slot holds \<^verbatim>\<open>UndefinedValue\<close>.
\<close>

definition Else :: "'f JsonObject \<Rightarrow> slot_ref \<Rightarrow> ('s \<Rightarrow> 's) \<Rightarrow> 's \<Rightarrow> 's" where
  "Else Properties r Callback s =
     (let bUndefined = HasType T_UndefinedValue (slot_value Properties r)
      in if bUndefined then Callback s else s)"

section \<open>The tokenizer\<close>

datatype JsonTokenType =
    None_t | ObjectStart | ObjectEnd | ArrayStart | ArrayEnd | String_t | Number
  | Boolean | Null_t | Comma | Colon | Invalid

record JsonToken =
  Type :: JsonTokenType
  Position :: nat
  Value :: string

record JsonTokenizer =
  TPosition :: nat
  Input :: string
  TCurrentToken :: JsonToken

definition mk_token :: "JsonTokenType \<Rightarrow> nat \<Rightarrow> string \<Rightarrow> JsonToken" where
  "mk_token t p s = \<lparr>Type = t, Position = p, Value = s\<rparr>"

definition Init :: "string \<Rightarrow> JsonTokenizer" where
  "Init InputIn = \<lparr>TPosition = 0, Input = InputIn, TCurrentToken = mk_token Invalid 0 []\<rparr>"

text \<open>\<^verbatim>\<open>std::isdigit\<close> and \<^verbatim>\<open>std::isspace\<close> in the "C" locale.\<close>

definition isdigit :: "char \<Rightarrow> bool" where
  "isdigit c = (c \<in> set ''0123456789'')"

definition isspace :: "char \<Rightarrow> bool" where
  "isspace c = (c \<in> {CHR '' '', CHR 0x09, CHR 0x0A, CHR 0x0B, CHR 0x0C, CHR 0x0D})"

definition IsValidNumberChar :: "char \<Rightarrow> bool" where
  "IsValidNumberChar c =
     (isdigit c \<or> c = CHR ''.'' \<or> c = CHR ''-'' \<or> c = CHR ''+'' \<or> c = CHR ''e'' \<or> c = CHR ''E'')"

text \<open>
  The private methods of the tokenizer read the immutable \<^verbatim>\<open>Input\<close> and move the cursor
  \<^verbatim>\<open>Position\<close>, and touch no other member: each takes the input and the position and
  returns the new position next to its result. \<^verbatim>\<open>PeekToken\<close> and \<^verbatim>\<open>GetToken\<close>, which also
  write the cached \<^verbatim>\<open>CurrentToken\<close>, work on the whole tokenizer.
\<close>

definition Peek :: "string \<Rightarrow> nat \<Rightarrow> char" where
  "Peek Inp Pos = (if Pos < length Inp then Inp ! Pos else CHR 0x00)"

definition Get :: "string \<Rightarrow> nat \<Rightarrow> char \<times> nat" where
  "Get Inp Pos = (if Pos < length Inp then (Inp ! Pos, Pos + 1) else (CHR 0x00, Pos))"

text \<open>\<^verbatim>\<open>Input.substr(Position, n)\<close> with \<^verbatim>\<open>Position <= size()\<close>.\<close>

definition substr :: "string \<Rightarrow> nat \<Rightarrow> nat \<Rightarrow> string" where
  "substr s pos n = take n (drop pos s)"

function SkipWhitespace :: "string \<Rightarrow> nat \<Rightarrow> nat" where
  "SkipWhitespace Inp Pos =
     (if Pos < length Inp \<and> isspace (Inp ! Pos) then SkipWhitespace Inp (Pos + 1) else Pos)"
  by pat_completeness auto
termination
  by (relation "measure (\<lambda>(Inp, Pos). length Inp - Pos)") auto

definition ParseNull :: "string \<Rightarrow> nat \<Rightarrow> JsonToken \<times> nat" where
  "ParseNull Inp Pos =
     (let token = mk_token Invalid Pos []
      in if substr Inp Pos 4 = ''null''
         then (token\<lparr>Value := ''null'', Type := Null_t\<rparr>, Pos + 4)
         else (token, Pos))"

definition ParseBoolean :: "string \<Rightarrow> nat \<Rightarrow> JsonToken \<times> nat" where
  "ParseBoolean Inp Pos =
     (let token = mk_token Invalid Pos []
      in if substr Inp Pos 4 = ''true''
         then (token\<lparr>Value := ''true'', Type := Boolean\<rparr>, Pos + 4)
         else if substr Inp Pos 5 = ''false''
         then (token\<lparr>Value := ''false'', Type := Boolean\<rparr>, Pos + 5)
         else (token, Pos))"

text \<open>
  The loop of \<^verbatim>\<open>ParseString\<close>:
  \<^verbatim>\<open>for(char Current = Get(); Current != '\0'; Current = Get())\<close>, with the token value
  built so far. \<^verbatim>\<open>CHR 0x5C\<close> is the backslash and \<^verbatim>\<open>CHR 0x22\<close> the double quote.
\<close>

function ParseString_loop :: "string \<Rightarrow> nat \<Rightarrow> string \<Rightarrow> string \<times> nat" where
  "ParseString_loop Inp Pos TokenValue =
     (case Get Inp Pos of (Current, Pos1) \<Rightarrow>
        if Current = CHR 0x00 then (TokenValue, Pos1)
        else if Current = CHR 0x5C then
          (case Get Inp Pos1 of (c, Pos2) \<Rightarrow> ParseString_loop Inp Pos2 (TokenValue @ [c]))
        else if Current = CHR 0x22 then (TokenValue, Pos1)
        else ParseString_loop Inp Pos1 (TokenValue @ [Current]))"
  by pat_completeness auto
termination
  by (relation "measure (\<lambda>(Inp, Pos, v). length Inp - Pos)")
     (auto simp: Get_def split: if_splits)

definition ParseString :: "string \<Rightarrow> nat \<Rightarrow> JsonToken \<times> nat" where
  "ParseString Inp Pos =
     (case Get Inp Pos of (q, Pos1) \<Rightarrow>
      case ParseString_loop Inp Pos1 [] of (v, Pos2) \<Rightarrow>
        (mk_token String_t Pos v, Pos2))"

function ParseNumer_loop :: "string \<Rightarrow> nat \<Rightarrow> string \<Rightarrow> string \<times> nat" where
  "ParseNumer_loop Inp Pos TokenValue =
     (let Current = Peek Inp Pos in
      if IsValidNumberChar Current
      then ParseNumer_loop Inp (snd (Get Inp Pos)) (TokenValue @ [Current])
      else (TokenValue, Pos))"
  by pat_completeness auto
termination
  by (relation "measure (\<lambda>(Inp, Pos, v). length Inp - Pos)")
     (auto simp: Get_def Peek_def IsValidNumberChar_def isdigit_def split: if_splits)

definition ParseNumer :: "string \<Rightarrow> nat \<Rightarrow> JsonToken \<times> nat" where
  "ParseNumer Inp Pos =
     (case ParseNumer_loop Inp Pos [] of (v, Pos1) \<Rightarrow> (mk_token Number Pos v, Pos1))"

definition NextToken :: "string \<Rightarrow> nat \<Rightarrow> JsonToken \<times> nat" where
  "NextToken Inp Pos0 =
     (let Pos = SkipWhitespace Inp Pos0 in
      if Pos \<ge> length Inp then (mk_token None_t Pos [], Pos)
      else
        let TokenPosition = Pos; Current = Peek Inp Pos in
        if Current = CHR ''{'' then (mk_token ObjectStart TokenPosition [fst (Get Inp Pos)], snd (Get Inp Pos))
        else if Current = CHR ''}'' then (mk_token ObjectEnd TokenPosition [fst (Get Inp Pos)], snd (Get Inp Pos))
        else if Current = CHR ''['' then (mk_token ArrayStart TokenPosition [fst (Get Inp Pos)], snd (Get Inp Pos))
        else if Current = CHR '']'' then (mk_token ArrayEnd TokenPosition [fst (Get Inp Pos)], snd (Get Inp Pos))
        else if Current = CHR '','' then (mk_token Comma TokenPosition [fst (Get Inp Pos)], snd (Get Inp Pos))
        else if Current = CHR '':'' then (mk_token Colon TokenPosition [fst (Get Inp Pos)], snd (Get Inp Pos))
        else if Current = CHR ''n'' then ParseNull Inp Pos
        else if Current = CHR 0x22 then ParseString Inp Pos
        else if Current = CHR ''t'' \<or> Current = CHR ''f'' then ParseBoolean Inp Pos
        else if IsValidNumberChar Current then ParseNumer Inp Pos
        else (mk_token Invalid Pos [], Pos))"

text \<open>
  \<^verbatim>\<open>PeekToken\<close> and \<^verbatim>\<open>GetToken\<close>: the cached token counts as absent while its type is
  \<^verbatim>\<open>Invalid\<close>.
\<close>

definition fill_CurrentToken :: "JsonTokenizer \<Rightarrow> JsonTokenizer" where
  "fill_CurrentToken tz =
     (if Type (TCurrentToken tz) = Invalid
      then (case NextToken (Input tz) (TPosition tz) of
              (t, Pos) \<Rightarrow> tz\<lparr>TPosition := Pos, TCurrentToken := t\<rparr>)
      else tz)"

definition PeekToken :: "JsonTokenizer \<Rightarrow> JsonToken \<times> JsonTokenizer" where
  "PeekToken tz = (let tz1 = fill_CurrentToken tz in (TCurrentToken tz1, tz1))"

definition GetToken :: "JsonTokenizer \<Rightarrow> JsonToken \<times> JsonTokenizer" where
  "GetToken tz =
     (let tz1 = fill_CurrentToken tz;
          Token = TCurrentToken tz1
      in case NextToken (Input tz1) (TPosition tz1) of
           (t, Pos) \<Rightarrow> (Token, tz1\<lparr>TPosition := Pos, TCurrentToken := t\<rparr>))"

section \<open>Numeric conversions of the standard library\<close>

text \<open>
  \<^verbatim>\<open>std::to_string\<close> on an integer prints it in decimal, with a minus sign when negative;
  \<^verbatim>\<open>std::format\<close> prints a \<^verbatim>\<open>size_t\<close> the same way.
\<close>

definition digit_char :: "nat \<Rightarrow> char" where
  "digit_char d = ''0123456789'' ! d"

function to_string_nat :: "nat \<Rightarrow> string" where
  "to_string_nat n =
     (if n < 10 then [digit_char n] else to_string_nat (n div 10) @ [digit_char (n mod 10)])"
  by pat_completeness auto
termination
  by (relation "measure id") auto

definition to_string_int64 :: "64 word \<Rightarrow> string" where
  "to_string_int64 w =
     (if sint w < 0 then CHR ''-'' # to_string_nat (nat (- sint w)) else to_string_nat (nat (sint w)))"

text \<open>
  \<^verbatim>\<open>std::stoll(str)\<close> is \<^verbatim>\<open>strtoll\<close> in base 10: it skips leading white space, reads an
  optional sign and then the longest run of digits, and ignores what follows. It throws
  \<^verbatim>\<open>std::invalid_argument\<close> when there is no digit to read and
  \<^verbatim>\<open>std::out_of_range\<close> when the number does not fit \<^verbatim>\<open>long long\<close>.
\<close>

definition digit_val :: "char \<Rightarrow> nat" where
  "digit_val c = of_char c - 48"

definition digits_value :: "string \<Rightarrow> nat" where
  "digits_value ds = foldl (\<lambda>acc c. 10 * acc + digit_val c) 0 ds"

definition stoll :: "string \<Rightarrow> exception + 64 word" where
  "stoll str =
     (let s1 = dropWhile isspace str;
          neg = (case s1 of c # r \<Rightarrow> c = CHR ''-'' | [] \<Rightarrow> False);
          s2 = (case s1 of c # r \<Rightarrow> if c = CHR ''-'' \<or> c = CHR ''+'' then r else s1 | [] \<Rightarrow> s1);
          ds = takeWhile isdigit s2
      in if ds = [] then Inl invalid_argument
         else
           let v = (if neg then - int (digits_value ds) else int (digits_value ds))
           in if v < - (2 ^ 63) \<or> 2 ^ 63 - 1 < v then Inl out_of_range
              else Inr (word_of_int v))"

text \<open>
  The conversions of \<^verbatim>\<open>double\<close> are taken as given: \<^verbatim>\<open>std::stod\<close>, which throws like
  \<^verbatim>\<open>std::stoll\<close>, and \<^verbatim>\<open>std::to_string(double)\<close>.
\<close>

record 'f platform =
  stod :: "string \<Rightarrow> exception + 'f"
  to_string_double :: "'f \<Rightarrow> string"

section \<open>The serializer\<close>

text \<open>
  The three mutually recursive methods write into the reference parameter
  \<^verbatim>\<open>Result\<close>; here they take it and return it. \<^verbatim>\<open>SerializeValue\<close> assigns to it for a
  scalar, appends through the container methods, and leaves it alone for
  \<^verbatim>\<open>UndefinedValue\<close>, for which no branch exists. The range-for loops carry the counter
  \<^verbatim>\<open>Written\<close>.
\<close>

function SerializeValue :: "'f platform \<Rightarrow> 'f JsonValue \<Rightarrow> string \<Rightarrow> bool \<Rightarrow> nat \<Rightarrow> string"
  and SerializeArray :: "'f platform \<Rightarrow> 'f JsonArray \<Rightarrow> string \<Rightarrow> bool \<Rightarrow> nat \<Rightarrow> string"
  and SerializeArray_loop ::
    "'f platform \<Rightarrow> 'f JsonArray \<Rightarrow> nat \<Rightarrow> string \<Rightarrow> bool \<Rightarrow> nat \<Rightarrow> string"
  and SerializeObject :: "'f platform \<Rightarrow> 'f JsonObject \<Rightarrow> string \<Rightarrow> bool \<Rightarrow> nat \<Rightarrow> string"
  and SerializeObject_loop ::
    "'f platform \<Rightarrow> 'f JsonObject \<Rightarrow> nat \<Rightarrow> string \<Rightarrow> bool \<Rightarrow> nat \<Rightarrow> string"
where
  "SerializeValue P (Int64 Num) Result bPretty Depth = to_string_int64 Num"
| "SerializeValue P (Double Num) Result bPretty Depth = to_string_double P Num"
| "SerializeValue P Null Result bPretty Depth = ''null''"
| "SerializeValue P (Bool b) Result bPretty Depth = (if b then ''true'' else ''false'')"
| "SerializeValue P (String s) Result bPretty Depth = [CHR 0x22] @ s @ [CHR 0x22]"
| "SerializeValue P (ArrayPtr Values) Result bPretty Depth =
     SerializeArray P Values Result bPretty (Depth + 1)"
| "SerializeValue P (ObjectPtr Properties) Result bPretty Depth =
     SerializeObject P Properties Result bPretty (Depth + 1)"
| "SerializeValue P UndefinedValue Result bPretty Depth = Result"
| "SerializeArray P Values Result bPretty Depth =
     (let Result1 = SerializeArray_loop P Values 0 (Result @ ''['') bPretty Depth;
          Result2 = (if bPretty \<and> length Result1 > 1
                     then Result1 @ [CHR 0x0A] @ replicate Depth (CHR 0x09) else Result1)
      in Result2 @ '']'')"
| "SerializeArray_loop P [] Written Result bPretty Depth = Result"
| "SerializeArray_loop P (v # Values) Written Result bPretty Depth =
     (let Result1 = (if Written > 0 then Result @ '','' else Result);
          Result2 = (if bPretty then Result1 @ [CHR 0x0A] @ replicate (Depth + 1) (CHR 0x09)
                     else Result1);
          ValueString = SerializeValue P v [] bPretty Depth
      in SerializeArray_loop P Values (Written + 1) (Result2 @ ValueString) bPretty Depth)"
| "SerializeObject P Properties Result bPretty Depth =
     (let Result1 = SerializeObject_loop P Properties 0 (Result @ ''{'') bPretty Depth;
          Result2 = (if bPretty \<and> length Result1 > 1
                     then Result1 @ [CHR 0x0A] @ replicate Depth (CHR 0x09) else Result1)
      in Result2 @ ''}'')"
| "SerializeObject_loop P [] Written Result bPretty Depth = Result"
| "SerializeObject_loop P ((Key, v) # Properties) Written Result bPretty Depth =
     (let Result1 = (if Written > 0 then Result @ '','' else Result);
          Result2 = (if bPretty then Result1 @ [CHR 0x0A] @ replicate (Depth + 1) (CHR 0x09)
                     else Result1);
          Separator = (if bPretty \<and> (HasType T_JsonObject v \<or> HasType T_JsonArray v)
                       then [CHR 0x0A] @ replicate (Depth + 1) (CHR 0x09) else '' '');
          ValueString = SerializeValue P v [] bPretty Depth
      in SerializeObject_loop P Properties (Written + 1)
           (Result2 @ [CHR 0x22] @ Key @ [CHR 0x22] @ '':'' @ Separator @ ValueString)
           bPretty Depth)"
  by pat_completeness auto
termination
  by (relation "measure (\<lambda>x. case x of
          Inl (Inl (P, v, r)) \<Rightarrow> 3 * size v
        | Inl (Inr (P, vs, r)) \<Rightarrow> 3 * size_list size vs + 2
        | Inr (Inl (P, vs, r)) \<Rightarrow> 3 * size_list size vs + 1
        | Inr (Inr (Inl (P, ps, r))) \<Rightarrow> 3 * size_list (size_prod (\<lambda>k. 0) size) ps + 2
        | Inr (Inr (Inr (P, ps, r))) \<Rightarrow> 3 * size_list (size_prod (\<lambda>k. 0) size) ps + 1)")
     auto

section \<open>The document and its parser\<close>

record 'f Json =
  Tokenizer :: JsonTokenizer
  CurrentToken :: JsonToken
  ErrorMessage :: "string option"
  RootObject :: "'f JsonObject option"

text \<open>The constructor \<^verbatim>\<open>Json()\<close>: default members and a fresh empty root object.\<close>

definition Json_new :: "'f Json" where
  "Json_new =
     \<lparr>Tokenizer = \<lparr>TPosition = 0, Input = [], TCurrentToken = mk_token Invalid 0 []\<rparr>,
      CurrentToken = mk_token Invalid 0 [], ErrorMessage = None, RootObject = Some []\<rparr>"

definition HasError :: "'f Json \<Rightarrow> bool" where
  "HasError st = (ErrorMessage st \<noteq> None)"

definition GetError :: "'f Json \<Rightarrow> string" where
  "GetError st = (case ErrorMessage st of Some m \<Rightarrow> m | None \<Rightarrow> [])"

definition Serialize :: "'f platform \<Rightarrow> 'f Json \<Rightarrow> bool \<Rightarrow> string" where
  "Serialize P doc bPretty =
     (case RootObject doc of
        None \<Rightarrow> []
      | Some root \<Rightarrow> SerializeObject P root [] bPretty 0)"

text \<open>\<^verbatim>\<open>Json::operator[]\<close> (non-const): the document after the call and the slot of the wrapper.\<close>

definition Json_index :: "'f Json \<Rightarrow> string \<Rightarrow> 'f Json \<times> slot_ref" where
  "Json_index doc Key =
     (let root = (case RootObject doc of None \<Rightarrow> [] | Some r \<Rightarrow> r)
      in (doc\<lparr>RootObject := Some (Properties_index root Key)\<rparr>, Property Key))"

definition Reset :: "bool \<Rightarrow> 'f Json \<Rightarrow> 'f Json" where
  "Reset bCreateRoot doc =
     (let doc1 = (if bCreateRoot then doc\<lparr>RootObject := Some []\<rparr> else doc)
      in doc1\<lparr>Tokenizer := Init [], ErrorMessage := None, CurrentToken := mk_token Invalid 0 []\<rparr>)"

text \<open>
  \<^verbatim>\<open>ThrowError\<close> returns at once when an error is already recorded. Otherwise it formats
  \<^verbatim>\<open>"Error at position {}[{}]: {} \nError Reason: {}"\<close> with a window of the input
  around the token.
\<close>

definition MaxErrorLocation :: nat where
  "MaxErrorLocation = 50"

definition ErrorLocation_of :: "string \<Rightarrow> nat \<Rightarrow> string" where
  "ErrorLocation_of Inp Pos =
     (if Pos \<ge> length Inp then ''Error position out of bounds''
      else
        let Start = (if Pos \<ge> MaxErrorLocation then Pos - MaxErrorLocation else 0);
            Diff = Pos - Start;
            End = min (Pos + MaxErrorLocation + Diff) (length Inp);
            ErrorLocation = substr Inp Start (End - Start)
        in if Diff > 0
           then substr ErrorLocation 0 Diff @ '' *ERROR*--> '' @ drop Diff ErrorLocation
           else ErrorLocation)"

definition ThrowError :: "JsonToken \<Rightarrow> string \<Rightarrow> 'f Json \<Rightarrow> 'f Json" where
  "ThrowError Token message st =
     (if HasError st then st
      else st\<lparr>ErrorMessage := Some
             (''Error at position '' @ to_string_nat (Position Token) @ ''['' @ Value Token
               @ '']: '' @ ErrorLocation_of (Input (Tokenizer st)) (Position Token)
               @ '' '' @ [CHR 0x0A] @ ''Error Reason: '' @ message)\<rparr>)"

definition UpdateToken :: "bool \<Rightarrow> 'f Json \<Rightarrow> 'f Json" where
  "UpdateToken bPeak st =
     (case (if bPeak then PeekToken (Tokenizer st) else GetToken (Tokenizer st)) of
        (t, tz) \<Rightarrow>
          let st1 = st\<lparr>Tokenizer := tz, CurrentToken := t\<rparr>
          in if Type (CurrentToken st1) = Invalid
             then ThrowError (CurrentToken st1) ''Invalid token'' st1
             else st1)"

definition Json_Peek :: "'f Json \<Rightarrow> 'f Json" where
  "Json_Peek st = UpdateToken True st"

definition Consume :: "'f Json \<Rightarrow> 'f Json" where
  "Consume st = UpdateToken False st"

text \<open>The lambda \<^verbatim>\<open>IsFloat\<close> of \<^verbatim>\<open>ParseValue\<close>, on the text of the current token.\<close>

definition IsFloat :: "string \<Rightarrow> bool" where
  "IsFloat v = (CHR ''.'' \<in> set v \<or> CHR ''e'' \<in> set v)"

definition quoted :: "string \<Rightarrow> string" where
  "quoted s = [CHR 0x27] @ s @ [CHR 0x27]"

text \<open>
  The recursive-descent methods. Each takes the document (tokenizer, current token and
  error slot) and returns \<open>Some (Inr (result, document))\<close> when the method returns,
  \<open>Some (Inl e)\<close> when the exception \<open>e\<close> leaves it, and \<open>None\<close> when the fuel, which
  bounds the number of nested calls and loop rounds, is used up. The macro
  \<^verbatim>\<open>ThrowParserError(...)\<close> is \<^verbatim>\<open>ThrowError(...); return {}\<close>: an undefined value from
  \<^verbatim>\<open>ParseValue\<close>, a null pointer (\<open>None\<close>) from \<^verbatim>\<open>ParseArray\<close> and \<^verbatim>\<open>ParseObject\<close>.
  Where \<^verbatim>\<open>ParseValue\<close> wraps the null pointer of a failed nested container into its
  result, the model returns \<open>UndefinedValue\<close>: both callers drop that result unread,
  since the error slot is set (lemma \<open>Parse_None_HasError\<close>).
\<close>

function ParseValue ::
    "'f platform \<Rightarrow> nat \<Rightarrow> 'f Json \<Rightarrow> (exception + ('f JsonValue \<times> 'f Json)) option"
  and ParseArray ::
    "'f platform \<Rightarrow> nat \<Rightarrow> 'f Json \<Rightarrow> (exception + ('f JsonArray option \<times> 'f Json)) option"
  and ParseArray_loop ::
    "'f platform \<Rightarrow> nat \<Rightarrow> 'f JsonArray \<Rightarrow> 'f Json \<Rightarrow>
       (exception + ('f JsonArray option \<times> 'f Json)) option"
  and ParseObject ::
    "'f platform \<Rightarrow> nat \<Rightarrow> 'f Json \<Rightarrow> (exception + ('f JsonObject option \<times> 'f Json)) option"
  and ParseObject_loop ::
    "'f platform \<Rightarrow> nat \<Rightarrow> 'f JsonObject \<Rightarrow> 'f Json \<Rightarrow>
       (exception + ('f JsonObject option \<times> 'f Json)) option"
where
  "ParseValue P 0 st0 = None"
| "ParseValue P (Suc n) st0 =
     (let st = Json_Peek st0 in
      case Type (CurrentToken st) of
        ObjectStart \<Rightarrow>
          (case ParseObject P n st of
             None \<Rightarrow> None
           | Some (Inl e) \<Rightarrow> Some (Inl e)
           | Some (Inr (r, st')) \<Rightarrow>
               Some (Inr ((case r of None \<Rightarrow> UndefinedValue | Some obj \<Rightarrow> ObjectPtr obj), st')))
      | ArrayStart \<Rightarrow>
          (case ParseArray P n st of
             None \<Rightarrow> None
           | Some (Inl e) \<Rightarrow> Some (Inl e)
           | Some (Inr (r, st')) \<Rightarrow>
               Some (Inr ((case r of None \<Rightarrow> UndefinedValue | Some arr \<Rightarrow> ArrayPtr arr), st')))
      | String_t \<Rightarrow>
          (let st1 = Consume st in Some (Inr (String (Value (CurrentToken st1)), st1)))
      | Number \<Rightarrow>
          (let st1 = Consume st in
           if IsFloat (Value (CurrentToken st1))
           then (case stod P (Value (CurrentToken st1)) of
                   Inl e \<Rightarrow> Some (Inl e)
                 | Inr d \<Rightarrow> Some (Inr (Double d, st1)))
           else (case stoll (Value (CurrentToken st1)) of
                   Inl e \<Rightarrow> Some (Inl e)
                 | Inr i \<Rightarrow> Some (Inr (Int64 i, st1))))
      | Null_t \<Rightarrow> (let st1 = Consume st in Some (Inr (Null, st1)))
      | Boolean \<Rightarrow>
          (let st1 = Consume st in Some (Inr (Bool (Value (CurrentToken st1) = ''true''), st1)))
      | _ \<Rightarrow>
          Some (Inr (UndefinedValue,
                     ThrowError (CurrentToken st) ''Unexpected token while parsing value'' st)))"
| "ParseArray P 0 st0 = None"
| "ParseArray P (Suc n) st0 =
     (let st = Consume st0 in
      if Type (CurrentToken st) \<noteq> ArrayStart
      then Some (Inr (None, ThrowError (CurrentToken st) (''Expected '' @ quoted ''['') st))
      else
        let st1 = Json_Peek st in
        if Type (CurrentToken st1) = ArrayEnd then Some (Inr (Some [], Consume st1))
        else ParseArray_loop P n [] st1)"
| "ParseArray_loop P 0 Values st = None"
| "ParseArray_loop P (Suc n) Values st =
     (case ParseValue P n st of
        None \<Rightarrow> None
      | Some (Inl e) \<Rightarrow> Some (Inl e)
      | Some (Inr (v, st1)) \<Rightarrow>
          if HasError st1 then Some (Inr (None, st1))
          else
            let Values1 = Values @ [v]; st2 = Consume st1 in
            if Type (CurrentToken st2) \<noteq> Comma \<and> Type (CurrentToken st2) \<noteq> ArrayEnd
            then Some (Inr (None,
                   ThrowError (CurrentToken st2)
                     (''Expected '' @ quoted '','' @ '' or '' @ quoted '']'') st2))
            else if Type (CurrentToken st2) = ArrayEnd then Some (Inr (Some Values1, st2))
            else ParseArray_loop P n Values1 (Json_Peek st2))"
| "ParseObject P 0 st0 = None"
| "ParseObject P (Suc n) st0 =
     (let st = Consume st0 in
      if Type (CurrentToken st) \<noteq> ObjectStart
      then Some (Inr (None, ThrowError (CurrentToken st) (''Expected '' @ quoted ''{'') st))
      else
        let st1 = Json_Peek st in
        if Type (CurrentToken st1) = ObjectEnd then Some (Inr (Some [], Consume st1))
        else ParseObject_loop P n [] st1)"
| "ParseObject_loop P 0 Properties st = None"
| "ParseObject_loop P (Suc n) Properties st =
     (if Type (CurrentToken st) \<noteq> String_t
      then Some (Inr (None, ThrowError (CurrentToken st) ''Expected string key'' st))
      else
        let st1 = Consume st; Key = Value (CurrentToken st1); st2 = Consume st1 in
        if Type (CurrentToken st2) \<noteq> Colon
        then Some (Inr (None, ThrowError (CurrentToken st2) (''Expected '' @ quoted '':'') st2))
        else
          (case ParseValue P n st2 of
             None \<Rightarrow> None
           | Some (Inl e) \<Rightarrow> Some (Inl e)
           | Some (Inr (v, st3)) \<Rightarrow>
               if HasError st3 then Some (Inr (None, st3))
               else
                 let Properties1 = Properties_emplace Properties Key v; st4 = Consume st3 in
                 if Type (CurrentToken st4) \<noteq> Comma \<and> Type (CurrentToken st4) \<noteq> ObjectEnd
                 then Some (Inr (None,
                        ThrowError (CurrentToken st4)
                          (''Expected '' @ quoted '','' @ '' or '' @ quoted ''}'') st4))
                 else if Type (CurrentToken st4) = ObjectEnd then Some (Inr (Some Properties1, st4))
                 else ParseObject_loop P n Properties1 (Json_Peek st4)))"
  by pat_completeness auto
termination
  by (relation "measure (\<lambda>x. case x of
          Inl (Inl (P, n, st)) \<Rightarrow> n
        | Inl (Inr (P, n, st)) \<Rightarrow> n
        | Inr (Inl (P, n, vs, st)) \<Rightarrow> n
        | Inr (Inr (Inl (P, n, st))) \<Rightarrow> n
        | Inr (Inr (Inr (P, n, ps, st))) \<Rightarrow> n)")
     auto

text \<open>
  \<^verbatim>\<open>Json::Parse\<close>: \<^verbatim>\<open>Tokenizer.Init(Input); ErrorMessage.reset();
  RootObject = ParseObject();\<close>. An exception leaves before the assignment.
\<close>

definition Parse_fuel ::
  "'f platform \<Rightarrow> nat \<Rightarrow> string \<Rightarrow> 'f Json \<Rightarrow> (exception + 'f Json) option" where
  "Parse_fuel P fuel InputIn doc =
     (case ParseObject P fuel (doc\<lparr>Tokenizer := Init InputIn, ErrorMessage := None\<rparr>) of
        None \<Rightarrow> None
      | Some (Inl e) \<Rightarrow> Some (Inl e)
      | Some (Inr (r, st)) \<Rightarrow> Some (Inr (st\<lparr>RootObject := r\<rparr>)))"

section \<open>Predicates and reference functions of the statements\<close>

text \<open>
  The body of a string literal, between its quotes, as the tokenizer can read it to the
  closing quote: a backslash is followed by some character, and outside such a pair there
  is no quote and no NUL (at which the loop of \<^verbatim>\<open>ParseString\<close> stops).
\<close>

fun string_body_ok :: "string \<Rightarrow> bool" where
  "string_body_ok [] = True"
| "string_body_ok [c] = (c \<noteq> CHR 0x5C \<and> c \<noteq> CHR 0x22 \<and> c \<noteq> CHR 0x00)"
| "string_body_ok (c # d # ds) =
     (if c = CHR 0x5C then string_body_ok ds
      else c \<noteq> CHR 0x22 \<and> c \<noteq> CHR 0x00 \<and> string_body_ok (d # ds))"

text \<open>
  The value that the loop of \<^verbatim>\<open>ParseString\<close> builds from such a body, written out from
  the loop (\<^verbatim>\<open>Token.Value += Get(); continue;\<close> on a backslash, \<^verbatim>\<open>Token.Value += Current\<close>
  otherwise): a backslash is dropped and the character after it is kept as it is, every
  other character is kept. That the tokenizer computes it is part of the theorem on string
  tokens. A value that stored the escape sequences literally would be the body itself.
\<close>

fun string_token_value :: "string \<Rightarrow> string" where
  "string_token_value [] = []"
| "string_token_value [c] = [c]"
| "string_token_value (c # d # ds) =
     (if c = CHR 0x5C then d # string_token_value ds else c # string_token_value (d # ds))"

text \<open>A string without quote, backslash and NUL.\<close>

definition plain :: "string \<Rightarrow> bool" where
  "plain s = (\<forall>c \<in> set s. c \<noteq> CHR 0x22 \<and> c \<noteq> CHR 0x5C \<and> c \<noteq> CHR 0x00)"

text \<open>
  A sample platform for concrete instances: the doubles that are whole numbers in the range
  of \<^verbatim>\<open>int64_t\<close>, which \<^verbatim>\<open>std::to_string\<close> prints with six zero decimals and
  \<^verbatim>\<open>std::stod\<close> reads back from such a text.
\<close>

definition whole_doubles :: "int platform" where
  "whole_doubles =
     \<lparr>stod = (\<lambda>s. case stoll s of Inl e \<Rightarrow> Inl e | Inr w \<Rightarrow> Inr (sint w)),
      to_string_double = (\<lambda>i. to_string_int64 (word_of_int i) @ ''.000000'')\<rparr>"

text \<open>The result of a parser method with the root object of the returned document replaced.\<close>

definition with_root ::
  "'f JsonObject option \<Rightarrow> (exception + ('a \<times> 'f Json)) option \<Rightarrow> (exception + ('a \<times> 'f Json)) option" where
  "with_root r res = map_option (map_sum id (\<lambda>(x, s). (x, s\<lparr>RootObject := r\<rparr>))) res"

text \<open>The document left by parsing the text \<^verbatim>\<open>{"a": }\<close>.\<close>

definition example_error_state :: "int Json" where
  "example_error_state =
     \<lparr>Tokenizer = \<lparr>TPosition = 7, Input = ''{'' @ [CHR 0x22] @ ''a'' @ [CHR 0x22] @ '': }'',
        TCurrentToken = \<lparr>Type = ObjectEnd, Position = 6, Value = ''}''\<rparr>\<rparr>,
      CurrentToken = \<lparr>Type = ObjectEnd, Position = 6, Value = ''}''\<rparr>,
      ErrorMessage = Some (''Error at position 6[}]: {'' @ [CHR 0x22] @ ''a'' @ [CHR 0x22]
        @ '':  *ERROR*--> } '' @ [CHR 0x0A] @ ''Error Reason: Unexpected token while parsing value''),
      RootObject = None\<rparr>"

text \<open>
  The tokenizer over the input \<open>Inp\<close> once it has read and cached the token that starts at
  position \<open>p\<close>, and the tokenizers from which the next token to be delivered is that one:
  either it is cached already, or nothing valid is cached and \<^verbatim>\<open>Position\<close> is \<open>p\<close>.
\<close>

definition cached :: "string \<Rightarrow> nat \<Rightarrow> JsonTokenizer" where
  "cached Inp p =
     \<lparr>TPosition = snd (NextToken Inp p), Input = Inp, TCurrentToken = fst (NextToken Inp p)\<rparr>"

definition ready :: "string \<Rightarrow> nat \<Rightarrow> JsonTokenizer \<Rightarrow> bool" where
  "ready Inp p tz \<longleftrightarrow>
     (tz = cached Inp p \<and> Type (fst (NextToken Inp p)) \<noteq> Invalid) \<or>
     (Input tz = Inp \<and> TPosition tz = p \<and> Type (TCurrentToken tz) = Invalid)"

text \<open>
  Trees that the compact text determines. A floating-point value qualifies when the text
  that \<^verbatim>\<open>std::to_string\<close> prints for it is not empty, consists of number characters only
  (the digits and \<^verbatim>\<open>.\<close>, \<^verbatim>\<open>-\<close>, \<^verbatim>\<open>+\<close>, \<^verbatim>\<open>e\<close>, \<^verbatim>\<open>E\<close>, so that the tokenizer takes it for
  one number token), holds a \<^verbatim>\<open>.\<close> or an \<^verbatim>\<open>e\<close> (so that the parser converts it with
  \<^verbatim>\<open>std::stod\<close>), and is read back by \<^verbatim>\<open>std::stod\<close> as the same value. The texts \<^verbatim>\<open>inf\<close>
  and \<^verbatim>\<open>nan\<close> of the infinities and of NaN are no such text, and a finite value qualifies
  when its six printed decimals determine it. A string or a key qualifies when it is
  \<open>plain\<close>, an object when its keys are distinct, as the keys of an \<^verbatim>\<open>unordered_map\<close> are. No
  slot is undefined.
\<close>

definition float_text_ok :: "'f platform \<Rightarrow> 'f \<Rightarrow> bool" where
  "float_text_ok P d =
     (let t = to_string_double P d
      in t \<noteq> [] \<and> (\<forall>c \<in> set t. IsValidNumberChar c) \<and> IsFloat t \<and> stod P t = Inr d)"

fun roundtrip_ok :: "'f platform \<Rightarrow> 'f JsonValue \<Rightarrow> bool"
  and roundtrip_ok_list :: "'f platform \<Rightarrow> 'f JsonValue list \<Rightarrow> bool"
  and roundtrip_ok_members :: "'f platform \<Rightarrow> (string \<times> 'f JsonValue) list \<Rightarrow> bool"
where
  "roundtrip_ok P UndefinedValue = False"
| "roundtrip_ok P Null = True"
| "roundtrip_ok P (Bool b) = True"
| "roundtrip_ok P (Int64 i) = True"
| "roundtrip_ok P (Double d) = float_text_ok P d"
| "roundtrip_ok P (String s) = plain s"
| "roundtrip_ok P (ArrayPtr vs) = roundtrip_ok_list P vs"
| "roundtrip_ok P (ObjectPtr ps) = (distinct (map fst ps) \<and> roundtrip_ok_members P ps)"
| "roundtrip_ok_list P [] = True"
| "roundtrip_ok_list P (v # vs) = (roundtrip_ok P v \<and> roundtrip_ok_list P vs)"
| "roundtrip_ok_members P [] = True"
| "roundtrip_ok_members P ((k, v) # ps) = (plain k \<and> roundtrip_ok P v \<and> roundtrip_ok_members P ps)"

text \<open>Fuel that suffices to parse the compact text of a value, of the elements of an array
  and of the members of an object.\<close>

fun fuel_value :: "'f JsonValue \<Rightarrow> nat"
  and fuel_elems :: "'f JsonValue list \<Rightarrow> nat"
  and fuel_members :: "(string \<times> 'f JsonValue) list \<Rightarrow> nat"
where
  "fuel_value (ArrayPtr vs) = Suc (Suc (fuel_elems vs))"
| "fuel_value (ObjectPtr ps) = Suc (Suc (fuel_members ps))"
| "fuel_value UndefinedValue = Suc 0"
| "fuel_value Null = Suc 0"
| "fuel_value (Bool b) = Suc 0"
| "fuel_value (Int64 i) = Suc 0"
| "fuel_value (Double d) = Suc 0"
| "fuel_value (String s) = Suc 0"
| "fuel_elems [] = 0"
| "fuel_elems (v # vs) = Suc (max (fuel_value v) (fuel_elems vs))"
| "fuel_members [] = 0"
| "fuel_members ((k, v) # ps) = Suc (max (fuel_value v) (fuel_members ps))"

text \<open>The token types with which the text of a value can start.\<close>

definition value_start :: "JsonTokenType set" where
  "value_start = {ObjectStart, ArrayStart, String_t, Number, Null_t, Boolean}"

text \<open>
  What the parser methods do on the compact text of a value, of the elements of an array up
  to the closing bracket, and of the members of an object up to the closing brace, wherever
  the text stands in the input: with fuel \<open>N\<close> or more they return the value and leave the
  tokenizer behind the text. After a value no number character may follow.
\<close>

definition back_value :: "nat \<Rightarrow> 'f platform \<Rightarrow> 'f JsonValue \<Rightarrow> bool" where
  "back_value N P v \<longleftrightarrow>
     (\<forall>n\<ge>N. \<forall>(st :: 'f Json) pre rest d.
        ready (pre @ SerializeValue P v [] False d @ rest) (length pre) (Tokenizer st) \<longrightarrow>
        ErrorMessage st = None \<longrightarrow> \<not> IsValidNumberChar (Peek rest 0) \<longrightarrow>
        (\<exists>t. ParseValue P n st
           = Some (Inr (v, st\<lparr>Tokenizer := cached (pre @ SerializeValue P v [] False d @ rest)
                                  (length pre + length (SerializeValue P v [] False d)),
                               CurrentToken := t\<rparr>))))"

definition back_elems :: "nat \<Rightarrow> 'f platform \<Rightarrow> 'f JsonValue list \<Rightarrow> bool" where
  "back_elems N P vs \<longleftrightarrow>
     (\<forall>n\<ge>N. \<forall>(st :: 'f Json) pre rest d acc.
        ready (pre @ SerializeArray_loop P vs 0 [] False d @ '']'' @ rest) (length pre) (Tokenizer st) \<longrightarrow>
        ErrorMessage st = None \<longrightarrow>
        (\<exists>t. ParseArray_loop P n acc st
           = Some (Inr (Some (acc @ vs),
               st\<lparr>Tokenizer := cached (pre @ SerializeArray_loop P vs 0 [] False d @ '']'' @ rest)
                                  (length pre + length (SerializeArray_loop P vs 0 [] False d) + 1),
                  CurrentToken := t\<rparr>))))"

definition back_members :: "nat \<Rightarrow> 'f platform \<Rightarrow> (string \<times> 'f JsonValue) list \<Rightarrow> bool" where
  "back_members N P ps \<longleftrightarrow>
     (\<forall>n\<ge>N. \<forall>(st :: 'f Json) pre rest d acc.
        Tokenizer st = cached (pre @ SerializeObject_loop P ps 0 [] False d @ ''}'' @ rest) (length pre) \<longrightarrow>
        CurrentToken st
          = fst (NextToken (pre @ SerializeObject_loop P ps 0 [] False d @ ''}'' @ rest) (length pre)) \<longrightarrow>
        ErrorMessage st = None \<longrightarrow> distinct (map fst (acc @ ps)) \<longrightarrow>
        (\<exists>t. ParseObject_loop P n acc st
           = Some (Inr (Some (acc @ ps),
               st\<lparr>Tokenizer := cached (pre @ SerializeObject_loop P ps 0 [] False d @ ''}'' @ rest)
                                  (length pre + length (SerializeObject_loop P ps 0 [] False d) + 1),
                  CurrentToken := t\<rparr>))))"


declare SkipWhitespace.simps [simp del] ParseString_loop.simps [simp del]
  ParseNumer_loop.simps [simp del] to_string_nat.simps [simp del]

section \<open>The tokenizer on structured input\<close>

lemma SkipWhitespace_stop:
  "Pos \<ge> length Inp \<or> \<not> isspace (Inp ! Pos) \<Longrightarrow> SkipWhitespace Inp Pos = Pos"
  by (subst SkipWhitespace.simps) auto

lemma SkipWhitespace_step:
  "Pos < length Inp \<Longrightarrow> isspace (Inp ! Pos) \<Longrightarrow>
     SkipWhitespace Inp Pos = SkipWhitespace Inp (Suc Pos)"
  by (subst SkipWhitespace.simps) simp

lemma NextToken_space:
  "Pos < length Inp \<Longrightarrow> isspace (Inp ! Pos) \<Longrightarrow> NextToken Inp Pos = NextToken Inp (Suc Pos)"
  by (simp add: NextToken_def SkipWhitespace_step)

lemma NextToken_end: "NextToken Inp (length Inp) = (mk_token None_t (length Inp) [], length Inp)"
  by (simp add: NextToken_def SkipWhitespace_stop Let_def)

lemma NextToken_at_space:
  "isspace c \<Longrightarrow> NextToken (pre @ c # rest) (length pre) = NextToken (pre @ c # rest) (Suc (length pre))"
  by (rule NextToken_space) simp_all

lemma NextToken_structural:
  "NextToken (pre @ CHR ''{'' # rest) (length pre) = (mk_token ObjectStart (length pre) ''{'', Suc (length pre))"
  "NextToken (pre @ CHR ''}'' # rest) (length pre) = (mk_token ObjectEnd (length pre) ''}'', Suc (length pre))"
  "NextToken (pre @ CHR ''['' # rest) (length pre) = (mk_token ArrayStart (length pre) ''['', Suc (length pre))"
  "NextToken (pre @ CHR '']'' # rest) (length pre) = (mk_token ArrayEnd (length pre) '']'', Suc (length pre))"
  "NextToken (pre @ CHR '','' # rest) (length pre) = (mk_token Comma (length pre) '','', Suc (length pre))"
  "NextToken (pre @ CHR '':'' # rest) (length pre) = (mk_token Colon (length pre) '':'', Suc (length pre))"
  by (simp_all add: NextToken_def SkipWhitespace_stop isspace_def Peek_def Get_def Let_def)

lemma Get_at: "Get (pre @ c # rest) (length pre) = (c, Suc (length pre))"
  by (simp add: Get_def)

lemma Get_end: "Get Inp (length Inp) = (CHR 0x00, length Inp)"
  by (simp add: Get_def)

lemma ParseString_loop_body:
  "string_body_ok s \<Longrightarrow>
     ParseString_loop (pre @ s @ CHR 0x22 # rest) (length pre) acc
       = (acc @ string_token_value s, length pre + length s + 1)"
proof (induction s arbitrary: pre acc rule: string_body_ok.induct)
  case 1
  show ?case
    by (subst ParseString_loop.simps) (simp add: Get_at)
next
  case (2 c)
  have "ParseString_loop (pre @ [c] @ CHR 0x22 # rest) (length pre) acc
      = ParseString_loop ((pre @ [c]) @ [] @ CHR 0x22 # rest) (length (pre @ [c])) (acc @ [c])"
    using 2 Get_at [of pre c "CHR 0x22 # rest"]
    by (subst ParseString_loop.simps) simp
  also have "\<dots> = ((acc @ [c]) @ [], length (pre @ [c]) + 0 + 1)"
    using Get_at [of "pre @ [c]" "CHR 0x22" rest]
    by (subst ParseString_loop.simps) simp
  finally show ?case by simp
next
  case (3 c d ds)
  show ?case
  proof (cases "c = CHR 0x5C")
    case True
    with 3 have ok: "string_body_ok ds" by simp
    have "ParseString_loop (pre @ (c # d # ds) @ CHR 0x22 # rest) (length pre) acc
        = ParseString_loop ((pre @ [c, d]) @ ds @ CHR 0x22 # rest) (length (pre @ [c, d])) (acc @ [d])"
      using True Get_at [of pre c "d # ds @ CHR 0x22 # rest"]
        Get_at [of "pre @ [c]" d "ds @ CHR 0x22 # rest"]
      by (subst ParseString_loop.simps) simp
    also have "\<dots> = ((acc @ [d]) @ string_token_value ds, length (pre @ [c, d]) + length ds + 1)"
      using "3.IH"(1) [OF True ok] .
    finally show ?thesis using True by simp
  next
    case False
    with 3 have ok: "string_body_ok (d # ds)" and c: "c \<noteq> CHR 0x22" "c \<noteq> CHR 0x00" by simp_all
    have "ParseString_loop (pre @ (c # d # ds) @ CHR 0x22 # rest) (length pre) acc
        = ParseString_loop ((pre @ [c]) @ (d # ds) @ CHR 0x22 # rest) (length (pre @ [c])) (acc @ [c])"
      using False c Get_at [of pre c "d # ds @ CHR 0x22 # rest"]
      by (subst ParseString_loop.simps) simp
    also have "\<dots> = ((acc @ [c]) @ string_token_value (d # ds), length (pre @ [c]) + length (d # ds) + 1)"
      using "3.IH"(2) [OF False ok] .
    finally show ?thesis using False by simp
  qed
qed

lemma NextToken_String:
  assumes "string_body_ok s"
  shows "NextToken (pre @ CHR 0x22 # s @ CHR 0x22 # rest) (length pre)
           = (mk_token String_t (length pre) (string_token_value s), length pre + length s + 2)"
proof -
  have "ParseString_loop ((pre @ [CHR 0x22]) @ s @ CHR 0x22 # rest) (length (pre @ [CHR 0x22])) []
      = ([] @ string_token_value s, length (pre @ [CHR 0x22]) + length s + 1)"
    using assms by (rule ParseString_loop_body)
  then show ?thesis
    by (simp add: NextToken_def SkipWhitespace_stop isspace_def Peek_def ParseString_def Get_at Let_def)
qed

lemma plain_body: "plain s \<Longrightarrow> string_body_ok s \<and> string_token_value s = s"
  by (induction s rule: string_body_ok.induct) (auto simp: plain_def)

lemma Peek_at: "Peek (pre @ c # rest) (length pre) = c"
  by (simp add: Peek_def)

lemma ParseNumer_loop_run:
  "\<forall>c \<in> set num. IsValidNumberChar c \<Longrightarrow> \<not> IsValidNumberChar (Peek (pre @ num @ rest) (length pre + length num)) \<Longrightarrow>
     ParseNumer_loop (pre @ num @ rest) (length pre) acc = (acc @ num, length pre + length num)"
proof (induction num arbitrary: pre acc)
  case Nil
  then show ?case
    by (subst ParseNumer_loop.simps) simp
next
  case (Cons c num)
  have "ParseNumer_loop (pre @ (c # num) @ rest) (length pre) acc
      = ParseNumer_loop ((pre @ [c]) @ num @ rest) (length (pre @ [c])) (acc @ [c])"
    using Cons.prems(1) Peek_at [of pre c "num @ rest"] Get_at [of pre c "num @ rest"]
    by (subst ParseNumer_loop.simps) simp
  also have "\<dots> = ((acc @ [c]) @ num, length (pre @ [c]) + length num)"
    using Cons.prems by (intro Cons.IH) simp_all
  finally show ?case by simp
qed

lemma IsValidNumberChar_not_special:
  assumes "IsValidNumberChar c"
  shows "\<not> isspace c" "c \<noteq> CHR ''{''" "c \<noteq> CHR ''}''" "c \<noteq> CHR ''[''" "c \<noteq> CHR '']''"
    "c \<noteq> CHR '',''" "c \<noteq> CHR '':''" "c \<noteq> CHR ''n''" "c \<noteq> CHR 0x22" "c \<noteq> CHR ''t''"
    "c \<noteq> CHR ''f''" "c \<noteq> CHR 0x00"
  using assms by (auto simp: IsValidNumberChar_def isdigit_def isspace_def)

lemma NextToken_Number:
  assumes "num \<noteq> []" "\<forall>c \<in> set num. IsValidNumberChar c"
    "\<not> IsValidNumberChar (Peek (pre @ num @ rest) (length pre + length num))"
  shows "NextToken (pre @ num @ rest) (length pre) = (mk_token Number (length pre) num, length pre + length num)"
proof -
  obtain c cs where num: "num = c # cs" using assms(1) by (cases num) auto
  then have c: "IsValidNumberChar c" using assms(2) by simp
  have run: "ParseNumer_loop (pre @ num @ rest) (length pre) [] = ([] @ num, length pre + length num)"
    using assms(2,3) by (rule ParseNumer_loop_run)
  have pk: "Peek (pre @ num @ rest) (length pre) = c"
    using Peek_at [of pre c "cs @ rest"] by (simp add: num)
  have sk: "SkipWhitespace (pre @ num @ rest) (length pre) = length pre"
    by (rule SkipWhitespace_stop) (simp add: num IsValidNumberChar_not_special(1) [OF c])
  have len: "\<not> length (pre @ num @ rest) \<le> length pre"
    by (simp add: num)
  show ?thesis
    unfolding NextToken_def sk Let_def ParseNumer_def run pk
    using c IsValidNumberChar_not_special [OF c] len assms(1)
    by simp
qed

lemma NextToken_keyword:
  "NextToken (pre @ ''null'' @ rest) (length pre)
     = (\<lparr>Type = Null_t, Position = length pre, Value = ''null''\<rparr>, length pre + 4)"
  "NextToken (pre @ ''true'' @ rest) (length pre)
     = (\<lparr>Type = Boolean, Position = length pre, Value = ''true''\<rparr>, length pre + 4)"
  "NextToken (pre @ ''false'' @ rest) (length pre)
     = (\<lparr>Type = Boolean, Position = length pre, Value = ''false''\<rparr>, length pre + 5)"
  by (simp_all add: NextToken_def SkipWhitespace_stop isspace_def Peek_def ParseNull_def
      ParseBoolean_def substr_def mk_token_def Let_def)


section \<open>Accessors: indexing, defaults and bounds\<close>

lemma HasType_valid_Undefined:
  "CIsValidJsonGetValue T \<Longrightarrow> \<not> HasType T UndefinedValue"
  by (cases T) simp_all

lemma Properties_index_absent:
  "Properties_find Properties Key = None \<Longrightarrow>
     Properties_index Properties Key = Properties @ [(Key, UndefinedValue)]"
  by (simp add: Properties_find_def Properties_index_def)

lemma Properties_index_present:
  "Properties_find Properties Key = Some v \<Longrightarrow> Properties_index Properties Key = Properties"
  by (simp add: Properties_find_def Properties_index_def)

lemma map_of_append_absent:
  "map_of xs k = None \<Longrightarrow> map_of (xs @ [(k, v)]) k = Some v"
  by (induction xs) auto

text \<open>
  Claim C7. \<^verbatim>\<open>JsonArray::operator[]\<close> with an index equal to or beyond the length of the
  array throws \<^verbatim>\<open>std::out_of_range\<close>: it never returns a value, default or other.
\<close>

theorem C7_array_index_out_of_bounds:
  "length Values \<le> Index \<Longrightarrow> JsonArray_index Values Index = Inl out_of_range"
  by (simp add: JsonArray_index_def)

theorem C7_array_index_out_of_bounds_witness:
  "length [Null :: unit JsonValue, Bool True] \<le> 2 \<and>
   JsonArray_index [Null :: unit JsonValue, Bool True] 2 = Inl out_of_range"
  using C7_array_index_out_of_bounds [of "[Null :: unit JsonValue, Bool True]" 2] by simp

text \<open>
  Claim C10. Const indexing of a \<^verbatim>\<open>JsonObject\<close> with an absent key returns the object as
  it was, bound to a slot that reads as \<^verbatim>\<open>UndefinedValue\<close>: an \<^verbatim>\<open>Else\<close> callback runs,
  and a typed read of any gettable type throws the type-mismatch
  \<^verbatim>\<open>runtime_error\<close>. Non-const indexing of the same object adds an entry holding
  \<^verbatim>\<open>UndefinedValue\<close> under the key.
\<close>

theorem C10_const_index_absent_key:
  assumes "Properties_find Properties Key = None"
  shows "fst (JsonObject_index_const Properties Key) = Properties
    \<and> slot_value Properties (snd (JsonObject_index_const Properties Key)) = UndefinedValue
    \<and> (\<forall>Callback s.
          Else Properties (snd (JsonObject_index_const Properties Key)) Callback s = Callback s)
    \<and> (\<forall>T. CIsValidJsonGetValue T \<longrightarrow>
          Get_Internal_const T Properties (snd (JsonObject_index_const Properties Key))
            = Inl (runtime_error ''Field is not of the requested type''))
    \<and> fst (JsonObject_index Properties Key) = Properties @ [(Key, UndefinedValue)]
    \<and> slot_value (fst (JsonObject_index Properties Key)) (snd (JsonObject_index Properties Key))
          = UndefinedValue"
proof -
  have r: "JsonObject_index_const Properties Key = (Properties, EmptyValue)"
    using assms by (simp add: JsonObject_index_const_def)
  have m: "map_of Properties Key = None"
    using assms by (simp add: Properties_find_def)
  have a: "fst (JsonObject_index_const Properties Key) = Properties"
    by (simp add: r)
  have b: "slot_value Properties (snd (JsonObject_index_const Properties Key)) = UndefinedValue"
    by (simp add: r slot_value_def)
  have c: "\<forall>Callback s.
      Else Properties (snd (JsonObject_index_const Properties Key)) Callback s = Callback s"
    by (simp add: r slot_value_def Else_def)
  have d: "\<forall>T. CIsValidJsonGetValue T \<longrightarrow>
      Get_Internal_const T Properties (snd (JsonObject_index_const Properties Key))
        = Inl (runtime_error ''Field is not of the requested type'')"
    by (simp add: r slot_value_def Get_Internal_const_def HasType_valid_Undefined)
  have e: "fst (JsonObject_index Properties Key) = Properties @ [(Key, UndefinedValue)]"
    using assms by (simp add: JsonObject_index_def Properties_index_absent)
  have f: "slot_value (fst (JsonObject_index Properties Key))
      (snd (JsonObject_index Properties Key)) = UndefinedValue"
    using assms map_of_append_absent [OF m, of UndefinedValue]
    by (simp add: JsonObject_index_def Properties_index_absent slot_value_def
        del: map_of_append)
  from a b c d e f show ?thesis by blast
qed

theorem C10_const_index_absent_key_witness:
  "Properties_find [(''a'', Int64 1 :: unit JsonValue)] ''b'' = None \<and>
   fst (JsonObject_index_const [(''a'', Int64 1 :: unit JsonValue)] ''b'') = [(''a'', Int64 1)] \<and>
   Else [(''a'', Int64 1 :: unit JsonValue)]
     (snd (JsonObject_index_const [(''a'', Int64 1 :: unit JsonValue)] ''b'')) Suc (0 :: nat) = 1 \<and>
   CIsValidJsonGetValue T_int64 \<and>
   Get_Internal_const T_int64 [(''a'', Int64 1 :: unit JsonValue)]
     (snd (JsonObject_index_const [(''a'', Int64 1 :: unit JsonValue)] ''b''))
     = Inl (runtime_error ''Field is not of the requested type'') \<and>
   fst (JsonObject_index [(''a'', Int64 1 :: unit JsonValue)] ''b'')
     = [(''a'', Int64 1), (''b'', UndefinedValue)]"
proof -
  have h: "Properties_find [(''a'', Int64 1 :: unit JsonValue)] ''b'' = None"
    by (simp add: Properties_find_def)
  have v: "CIsValidJsonGetValue T_int64"
    by simp
  note t = C10_const_index_absent_key [OF h]
  have e: "Else [(''a'', Int64 1 :: unit JsonValue)]
     (snd (JsonObject_index_const [(''a'', Int64 1 :: unit JsonValue)] ''b'')) Suc (0 :: nat) = 1"
    using t [THEN conjunct2, THEN conjunct2, THEN conjunct1, rule_format, of Suc 0] by simp
  have g: "Get_Internal_const T_int64 [(''a'', Int64 1 :: unit JsonValue)]
     (snd (JsonObject_index_const [(''a'', Int64 1 :: unit JsonValue)] ''b''))
     = Inl (runtime_error ''Field is not of the requested type'')"
    using t [THEN conjunct2, THEN conjunct2, THEN conjunct2, THEN conjunct1, rule_format, OF v] .
  show ?thesis
    using h v e g t [THEN conjunct1]
      t [THEN conjunct2, THEN conjunct2, THEN conjunct2, THEN conjunct2, THEN conjunct1]
    by simp
qed

section \<open>String tokens\<close>

text \<open>
  Claim C8, as stated, fails: the escape sequences are not stored literally. The token of
  the literal \<^verbatim>\<open>"a\nb"\<close> has the value \<^verbatim>\<open>anb\<close>, of three characters, and not the four
  characters \<^verbatim>\<open>a\nb\<close> between the quotes.
\<close>

theorem C8_escape_not_stored_counterexample:
  "Value (fst (NextToken (CHR 0x22 # [CHR ''a'', CHR 0x5C, CHR ''n'', CHR ''b''] @ [CHR 0x22]) 0))
     = ''anb'' \<and>
   Value (fst (NextToken (CHR 0x22 # [CHR ''a'', CHR 0x5C, CHR ''n'', CHR ''b''] @ [CHR 0x22]) 0))
     \<noteq> [CHR ''a'', CHR 0x5C, CHR ''n'', CHR ''b'']"
  using NextToken_String [of "[CHR ''a'', CHR 0x5C, CHR ''n'', CHR ''b'']" "[]" "[]"]
  by (simp add: mk_token_def)

text \<open>
  Claim C8, amended. In a string token every backslash that the loop of \<^verbatim>\<open>ParseString\<close>
  meets consumes the character after it, whatever it is, and appends that character
  unchanged to the token value; the backslash itself is dropped. A backslash before \<^verbatim>\<open>n\<close>
  yields the letter \<^verbatim>\<open>n\<close>, a backslash before \<^verbatim>\<open>u0041\<close> yields the five characters
  \<^verbatim>\<open>u0041\<close>: no escape sequence is decoded, and none is stored with its backslash. For a
  string literal whose body is readable up to its closing quote, the token value is the
  body with each introducing backslash dropped and every other character kept.
\<close>

theorem C8_backslash_consumes_next_character:
  "ParseString_loop (pre @ CHR 0x5C # c # rest) (length pre) TokenValue
     = ParseString_loop (pre @ CHR 0x5C # c # rest) (length pre + 2) (TokenValue @ [c])
   \<and> (string_body_ok s \<longrightarrow>
        NextToken (pre @ CHR 0x22 # s @ CHR 0x22 # rest) (length pre)
          = (mk_token String_t (length pre) (string_token_value s), length pre + length s + 2))"
proof
  show "ParseString_loop (pre @ CHR 0x5C # c # rest) (length pre) TokenValue
     = ParseString_loop (pre @ CHR 0x5C # c # rest) (length pre + 2) (TokenValue @ [c])"
    using Get_at [of pre "CHR 0x5C" "c # rest"] Get_at [of "pre @ [CHR 0x5C]" c rest]
    by (subst ParseString_loop.simps) simp
  show "string_body_ok s \<longrightarrow>
        NextToken (pre @ CHR 0x22 # s @ CHR 0x22 # rest) (length pre)
          = (mk_token String_t (length pre) (string_token_value s), length pre + length s + 2)"
    by (simp add: NextToken_String)
qed

theorem C8_backslash_consumes_next_character_witness:
  "string_body_ok [CHR ''a'', CHR 0x5C, CHR ''n'', CHR 0x5C, CHR ''u'', CHR ''0'', CHR 0x5C, CHR 0x22] \<and>
   NextToken ([CHR '':''] @ CHR 0x22 #
       [CHR ''a'', CHR 0x5C, CHR ''n'', CHR 0x5C, CHR ''u'', CHR ''0'', CHR 0x5C, CHR 0x22]
       @ CHR 0x22 # ''}'') (length [CHR '':''])
     = (mk_token String_t 1 [CHR ''a'', CHR ''n'', CHR ''u'', CHR ''0'', CHR 0x22], 11)"
  using C8_backslash_consumes_next_character
    [where pre = "[CHR '':'']" and rest = "''}''"
       and s = "[CHR ''a'', CHR 0x5C, CHR ''n'', CHR 0x5C, CHR ''u'', CHR ''0'', CHR 0x5C, CHR 0x22]"]
  by simp

section \<open>The error slot of the parser\<close>

lemmas tok_eval = NextToken_def SkipWhitespace.simps ParseString_loop.simps ParseNumer_loop.simps
  ParseString_def ParseNumer_def ParseNull_def ParseBoolean_def Peek_def Get_def substr_def
  IsValidNumberChar_def isdigit_def isspace_def mk_token_def Let_def

lemmas parse_eval = Parse_fuel_def Init_def Consume_def Json_Peek_def UpdateToken_def GetToken_def
  PeekToken_def fill_CurrentToken_def stoll_def digits_value_def digit_val_def IsFloat_def
  ThrowError_def HasError_def Properties_emplace_def Json_new_def

lemma ThrowError_HasError [simp]: "HasError (ThrowError t m st)"
  by (simp add: ThrowError_def HasError_def)

lemma ThrowError_not_None [simp]: "ErrorMessage (ThrowError t m st) \<noteq> None"
  by (simp add: ThrowError_def HasError_def)

lemma ThrowError_Some [simp]: "\<exists>y. ErrorMessage (ThrowError t m st) = Some y"
  by (simp add: ThrowError_def HasError_def)

lemma ThrowError_noop: "HasError st \<Longrightarrow> ThrowError t m st = st"
  by (simp add: ThrowError_def)

lemma ThrowError_kept: "ErrorMessage st = Some e \<Longrightarrow> ErrorMessage (ThrowError t m st) = Some e"
  by (simp add: ThrowError_def HasError_def)

lemma ThrowError_Root [simp]: "RootObject (ThrowError t m st) = RootObject st"
  by (simp add: ThrowError_def)

lemma UpdateToken_kept:
  "ErrorMessage st = Some e \<Longrightarrow> ErrorMessage (UpdateToken b st) = Some e"
  by (simp add: UpdateToken_def ThrowError_def HasError_def Let_def split: prod.splits)

lemma UpdateToken_Invalid:
  "Type (CurrentToken (UpdateToken b st)) = Invalid \<Longrightarrow> HasError (UpdateToken b st)"
  by (auto simp: UpdateToken_def ThrowError_def HasError_def Let_def split: prod.splits if_splits)

lemma UpdateToken_valid:
  "Type (CurrentToken (UpdateToken b st)) \<noteq> Invalid \<Longrightarrow>
     ErrorMessage (UpdateToken b st) = ErrorMessage st"
  by (auto simp: UpdateToken_def ThrowError_def HasError_def Let_def split: prod.splits if_splits)

lemma Consume_after_Peek:
  assumes "Type (CurrentToken (Json_Peek st)) \<noteq> Invalid"
  shows "CurrentToken (Consume (Json_Peek st)) = CurrentToken (Json_Peek st)"
    and "ErrorMessage (Consume (Json_Peek st)) = ErrorMessage (Json_Peek st)"
  using assms
  by (auto simp: Consume_def Json_Peek_def UpdateToken_def PeekToken_def GetToken_def
      fill_CurrentToken_def ThrowError_def HasError_def Let_def split: prod.splits if_splits)

lemmas Consume_kept = UpdateToken_kept [of _ _ False, folded Consume_def]
lemmas Peek_kept = UpdateToken_kept [of _ _ True, folded Json_Peek_def]
lemmas Consume_Invalid = UpdateToken_Invalid [of False, folded Consume_def]
lemmas Peek_Invalid = UpdateToken_Invalid [of True, folded Json_Peek_def]
lemmas Consume_valid = UpdateToken_valid [of False, folded Consume_def]
lemmas Peek_valid = UpdateToken_valid [of True, folded Json_Peek_def]




lemma latch_ParseValue_step:
  assumes IHA: "\<And>st a st'. ErrorMessage st = Some e \<Longrightarrow> ParseArray P n st = Some (Inr (a, st')) \<Longrightarrow>
       ErrorMessage st' = Some e"
    and IHO: "\<And>st a st'. ErrorMessage st = Some e \<Longrightarrow> ParseObject P n st = Some (Inr (a, st')) \<Longrightarrow>
       ErrorMessage st' = Some e"
    and "ErrorMessage st = Some e" "ParseValue P (Suc n) st = Some (Inr (v, st'))"
  shows "ErrorMessage st' = Some e"
proof -
  have k: "ErrorMessage (Json_Peek st) = Some e"
    using assms(3) by (rule Peek_kept)
  have c: "ErrorMessage (Consume (Json_Peek st)) = Some e"
    using k by (rule Consume_kept)
  show ?thesis
    using assms(4) k c
    apply (simp add: Let_def split: JsonTokenType.splits)
    apply (auto simp: ThrowError_kept split: option.splits sum.splits prod.splits if_splits dest: IHA [OF k] IHO [OF k])
    done
qed

lemma latch_ParseArray_step:
  assumes IHL: "\<And>vs st a st'. ErrorMessage st = Some e \<Longrightarrow>
       ParseArray_loop P n vs st = Some (Inr (a, st')) \<Longrightarrow> ErrorMessage st' = Some e"
    and "ErrorMessage st = Some e" "ParseArray P (Suc n) st = Some (Inr (a, st'))"
  shows "ErrorMessage st' = Some e"
proof -
  have c: "ErrorMessage (Consume st) = Some e"
    using assms(2) by (rule Consume_kept)
  have k: "ErrorMessage (Json_Peek (Consume st)) = Some e"
    using c by (rule Peek_kept)
  have c2: "ErrorMessage (Consume (Json_Peek (Consume st))) = Some e"
    using k by (rule Consume_kept)
  show ?thesis
    using assms(3) c k c2
    by (auto simp: Let_def ThrowError_kept split: if_splits dest: IHL [OF k])
qed

lemma latch_ParseArray_loop_step:
  assumes IHV: "\<And>st v st'. ErrorMessage st = Some e \<Longrightarrow> ParseValue P n st = Some (Inr (v, st')) \<Longrightarrow>
       ErrorMessage st' = Some e"
    and "ErrorMessage st = Some e" "ParseArray_loop P (Suc n) vs st = Some (Inr (a, st'))"
  shows "ErrorMessage st' = Some e"
  using assms(3)
  by (auto simp: Let_def HasError_def split: option.splits sum.splits prod.splits if_splits
      dest: IHV [OF assms(2)])

lemma latch_ParseObject_step:
  assumes IHL: "\<And>ps st a st'. ErrorMessage st = Some e \<Longrightarrow>
       ParseObject_loop P n ps st = Some (Inr (a, st')) \<Longrightarrow> ErrorMessage st' = Some e"
    and "ErrorMessage st = Some e" "ParseObject P (Suc n) st = Some (Inr (a, st'))"
  shows "ErrorMessage st' = Some e"
proof -
  have c: "ErrorMessage (Consume st) = Some e"
    using assms(2) by (rule Consume_kept)
  have k: "ErrorMessage (Json_Peek (Consume st)) = Some e"
    using c by (rule Peek_kept)
  have c2: "ErrorMessage (Consume (Json_Peek (Consume st))) = Some e"
    using k by (rule Consume_kept)
  show ?thesis
    using assms(3) c k c2
    by (auto simp: Let_def ThrowError_kept split: if_splits dest: IHL [OF k])
qed

lemma latch_ParseObject_loop_step:
  assumes IHV: "\<And>st v st'. ErrorMessage st = Some e \<Longrightarrow> ParseValue P n st = Some (Inr (v, st')) \<Longrightarrow>
       ErrorMessage st' = Some e"
    and "ErrorMessage st = Some e" "ParseObject_loop P (Suc n) ps st = Some (Inr (a, st'))"
  shows "ErrorMessage st' = Some e"
proof -
  have c: "ErrorMessage (Consume st) = Some e"
    using assms(2) by (rule Consume_kept)
  have c2: "ErrorMessage (Consume (Consume st)) = Some e"
    using c by (rule Consume_kept)
  show ?thesis
    using assms(3) assms(2) c c2
    by (auto simp: Let_def HasError_def ThrowError_kept
        split: option.splits sum.splits prod.splits if_splits dest: IHV [OF c2])
qed

lemma latch_all:
  "(\<forall>st v st'. ErrorMessage st = Some e \<longrightarrow> ParseValue P n st = Some (Inr (v, st')) \<longrightarrow>
       ErrorMessage st' = Some e) \<and>
   (\<forall>st a st'. ErrorMessage st = Some e \<longrightarrow> ParseArray P n st = Some (Inr (a, st')) \<longrightarrow>
       ErrorMessage st' = Some e) \<and>
   (\<forall>vs st a st'. ErrorMessage st = Some e \<longrightarrow> ParseArray_loop P n vs st = Some (Inr (a, st')) \<longrightarrow>
       ErrorMessage st' = Some e) \<and>
   (\<forall>st a st'. ErrorMessage st = Some e \<longrightarrow> ParseObject P n st = Some (Inr (a, st')) \<longrightarrow>
       ErrorMessage st' = Some e) \<and>
   (\<forall>ps st a st'. ErrorMessage st = Some e \<longrightarrow> ParseObject_loop P n ps st = Some (Inr (a, st')) \<longrightarrow>
       ErrorMessage st' = Some e)"
proof (induction n)
  case 0
  show ?case by simp
next
  case (Suc n)
  show ?case
  proof (intro conjI allI impI)
    fix st v st'
    assume "ErrorMessage st = Some e" "ParseValue P (Suc n) st = Some (Inr (v, st'))"
    then show "ErrorMessage st' = Some e"
      using Suc.IH by (intro latch_ParseValue_step [of e P n st v st']) blast+
  next
    fix st a st'
    assume "ErrorMessage st = Some e" "ParseArray P (Suc n) st = Some (Inr (a, st'))"
    then show "ErrorMessage st' = Some e"
      using Suc.IH by (intro latch_ParseArray_step [of e P n st a st']) blast+
  next
    fix vs st a st'
    assume "ErrorMessage st = Some e" "ParseArray_loop P (Suc n) vs st = Some (Inr (a, st'))"
    then show "ErrorMessage st' = Some e"
      using Suc.IH by (intro latch_ParseArray_loop_step [of e P n st vs a st']) blast+
  next
    fix st a st'
    assume "ErrorMessage st = Some e" "ParseObject P (Suc n) st = Some (Inr (a, st'))"
    then show "ErrorMessage st' = Some e"
      using Suc.IH by (intro latch_ParseObject_step [of e P n st a st']) blast+
  next
    fix ps st a st'
    assume "ErrorMessage st = Some e" "ParseObject_loop P (Suc n) ps st = Some (Inr (a, st'))"
    then show "ErrorMessage st' = Some e"
      using Suc.IH by (intro latch_ParseObject_loop_step [of e P n st ps a st']) blast+
  qed
qed


lemma ParseArray_loop_None_iff:
  "ParseArray_loop P n vs st = Some (Inr (r, st')) \<Longrightarrow> (r = None \<longleftrightarrow> HasError st')"
proof (induction n arbitrary: vs st r st')
  case 0
  then show ?case by simp
next
  case (Suc n)
  have IH1: "ParseArray_loop P n vs st = Some (Inr (None, st')) \<Longrightarrow> \<exists>y. ErrorMessage st' = Some y"
    for vs st st' using Suc.IH [of vs st None st'] by (simp add: HasError_def)
  have IH2: "ParseArray_loop P n vs st = Some (Inr (Some x, st')) \<Longrightarrow> ErrorMessage st' = None"
    for vs st x st' using Suc.IH [of vs st "Some x" st'] by (simp add: HasError_def)
  have IH3: "ParseArray_loop P n vs st = Some (Inr (r, st')) \<Longrightarrow> ErrorMessage st' = Some y \<Longrightarrow> r = None"
    for vs st r st' y using Suc.IH [of vs st r st'] by (simp add: HasError_def)
  show ?case
    using Suc.prems
    by (auto simp: Let_def HasError_def Consume_valid
        split: option.splits sum.splits prod.splits if_splits dest: IH1 IH2 IH3)
qed

lemma ParseObject_loop_None_iff:
  "ParseObject_loop P n ps st = Some (Inr (r, st')) \<Longrightarrow> (r = None \<longleftrightarrow> HasError st')"
proof (induction n arbitrary: ps st r st')
  case 0
  then show ?case by simp
next
  case (Suc n)
  have IH1: "ParseObject_loop P n ps st = Some (Inr (None, st')) \<Longrightarrow> \<exists>y. ErrorMessage st' = Some y"
    for ps st st' using Suc.IH [of ps st None st'] by (simp add: HasError_def)
  have IH2: "ParseObject_loop P n ps st = Some (Inr (Some x, st')) \<Longrightarrow> ErrorMessage st' = None"
    for ps st x st' using Suc.IH [of ps st "Some x" st'] by (simp add: HasError_def)
  have IH3: "ParseObject_loop P n ps st = Some (Inr (r, st')) \<Longrightarrow> ErrorMessage st' = Some y \<Longrightarrow> r = None"
    for ps st r st' y using Suc.IH [of ps st r st'] by (simp add: HasError_def)
  show ?case
    using Suc.prems
    by (auto simp: Let_def HasError_def Consume_valid
        split: option.splits sum.splits prod.splits if_splits dest: IH1 IH2 IH3)
qed

lemma ParseArray_None_iff:
  assumes "\<not> HasError st" "ParseArray P n st = Some (Inr (r, st'))"
  shows "r = None \<longleftrightarrow> HasError st'"
proof (cases n)
  case 0
  with assms show ?thesis by simp
next
  case (Suc m)
  have e0: "ErrorMessage st = None" using assms(1) by (simp add: HasError_def)
  show ?thesis
    using assms(2) e0 Consume_valid [of st] Peek_valid [of "Consume st"]
      Consume_after_Peek(2) [of "Consume st"]
    by (auto simp: Suc Let_def HasError_def split: if_splits
        dest: ParseArray_loop_None_iff [unfolded HasError_def])
qed

lemma ParseObject_None_iff:
  assumes "\<not> HasError st" "ParseObject P n st = Some (Inr (r, st'))"
  shows "r = None \<longleftrightarrow> HasError st'"
proof (cases n)
  case 0
  with assms show ?thesis by simp
next
  case (Suc m)
  have e0: "ErrorMessage st = None" using assms(1) by (simp add: HasError_def)
  show ?thesis
    using assms(2) e0 Consume_valid [of st] Peek_valid [of "Consume st"]
      Consume_after_Peek(2) [of "Consume st"]
    by (auto simp: Suc Let_def HasError_def split: if_splits
        dest: ParseObject_loop_None_iff [unfolded HasError_def])
qed

lemma Parse_fuel_error_root:
  "Parse_fuel P n InputIn doc = Some (Inr st) \<Longrightarrow> (HasError st \<longleftrightarrow> RootObject st = None)"
  by (auto simp: Parse_fuel_def HasError_def split: option.splits sum.splits prod.splits
      dest!: ParseObject_None_iff [unfolded HasError_def, rotated])


lemma with_root_simps [simp]:
  "with_root r None = None"
  "with_root r (Some (Inl e)) = Some (Inl e)"
  "with_root r (Some (Inr (x, s))) = Some (Inr (x, s\<lparr>RootObject := r\<rparr>))"
  by (simp_all add: with_root_def)

lemma ThrowError_root_update:
  "ThrowError t m (st\<lparr>RootObject := r\<rparr>) = (ThrowError t m st)\<lparr>RootObject := r\<rparr>"
  by (simp add: ThrowError_def HasError_def)

lemma HasError_root_update [simp]: "HasError (st\<lparr>RootObject := r\<rparr>) = HasError st"
  by (simp add: HasError_def)

lemma UpdateToken_root_update:
  "UpdateToken b (st\<lparr>RootObject := r\<rparr>) = (UpdateToken b st)\<lparr>RootObject := r\<rparr>"
  by (simp add: UpdateToken_def ThrowError_def HasError_def Let_def split: prod.splits)

lemmas Consume_root_update = UpdateToken_root_update [of False, folded Consume_def]
lemmas Peek_root_update = UpdateToken_root_update [of True, folded Json_Peek_def]

lemmas root_update = ThrowError_root_update Consume_root_update Peek_root_update

lemma root_frame_all:
  "(\<forall>st. ParseValue P n (st\<lparr>RootObject := r\<rparr>) = with_root r (ParseValue P n st)) \<and>
   (\<forall>st. ParseArray P n (st\<lparr>RootObject := r\<rparr>) = with_root r (ParseArray P n st)) \<and>
   (\<forall>vs st. ParseArray_loop P n vs (st\<lparr>RootObject := r\<rparr>) = with_root r (ParseArray_loop P n vs st)) \<and>
   (\<forall>st. ParseObject P n (st\<lparr>RootObject := r\<rparr>) = with_root r (ParseObject P n st)) \<and>
   (\<forall>ps st. ParseObject_loop P n ps (st\<lparr>RootObject := r\<rparr>) = with_root r (ParseObject_loop P n ps st))"
proof (induction n)
  case 0
  show ?case by simp
next
  case (Suc n)
  then have IH:
    "\<And>st. ParseValue P n (st\<lparr>RootObject := r\<rparr>) = with_root r (ParseValue P n st)"
    "\<And>st. ParseArray P n (st\<lparr>RootObject := r\<rparr>) = with_root r (ParseArray P n st)"
    "\<And>vs st. ParseArray_loop P n vs (st\<lparr>RootObject := r\<rparr>) = with_root r (ParseArray_loop P n vs st)"
    "\<And>st. ParseObject P n (st\<lparr>RootObject := r\<rparr>) = with_root r (ParseObject P n st)"
    "\<And>ps st. ParseObject_loop P n ps (st\<lparr>RootObject := r\<rparr>) = with_root r (ParseObject_loop P n ps st)"
    by blast+
  have V: "ParseValue P (Suc n) (st\<lparr>RootObject := r\<rparr>) = with_root r (ParseValue P (Suc n) st)" for st
    by (simp add: Let_def root_update IH
        split: JsonTokenType.splits option.splits sum.splits prod.splits)
  have A: "ParseArray P (Suc n) (st\<lparr>RootObject := r\<rparr>) = with_root r (ParseArray P (Suc n) st)" for st
    by (simp add: Let_def root_update IH)
  have AL: "ParseArray_loop P (Suc n) vs (st\<lparr>RootObject := r\<rparr>)
      = with_root r (ParseArray_loop P (Suc n) vs st)" for vs st
    by (simp add: Let_def root_update IH split: option.splits sum.splits prod.splits)
  have O: "ParseObject P (Suc n) (st\<lparr>RootObject := r\<rparr>) = with_root r (ParseObject P (Suc n) st)" for st
    by (simp add: Let_def root_update IH)
  have OL: "ParseObject_loop P (Suc n) ps (st\<lparr>RootObject := r\<rparr>)
      = with_root r (ParseObject_loop P (Suc n) ps st)" for ps st
    by (simp add: Let_def root_update IH split: option.splits sum.splits prod.splits)
  from V A AL O OL show ?case by blast
qed

lemma UpdateToken_CurrentToken_update:
  "UpdateToken b (st\<lparr>CurrentToken := c\<rparr>) = UpdateToken b st"
  by (simp add: UpdateToken_def ThrowError_def HasError_def Let_def split: prod.splits)

lemma ParseObject_CurrentToken_update:
  "ParseObject P n (st\<lparr>CurrentToken := c\<rparr>) = ParseObject P n st"
  by (cases n) (simp_all add: Consume_def UpdateToken_CurrentToken_update)

lemma Parse_fuel_independent:
  "Parse_fuel P n InputIn doc' = Parse_fuel P n InputIn doc"
proof -
  let ?X = "doc\<lparr>Tokenizer := Init InputIn, ErrorMessage := None\<rparr>"
  have eq: "doc'\<lparr>Tokenizer := Init InputIn, ErrorMessage := None\<rparr>
      = (?X\<lparr>CurrentToken := CurrentToken doc'\<rparr>)\<lparr>RootObject := RootObject doc'\<rparr>"
    by (cases doc, cases doc') simp
  have fr: "ParseObject P n (st\<lparr>RootObject := RootObject doc'\<rparr>)
      = with_root (RootObject doc') (ParseObject P n st)" for st
    using root_frame_all [of P n "RootObject doc'"] by blast
  have "ParseObject P n (doc'\<lparr>Tokenizer := Init InputIn, ErrorMessage := None\<rparr>)
      = with_root (RootObject doc') (ParseObject P n (?X\<lparr>CurrentToken := CurrentToken doc'\<rparr>))"
    unfolding eq by (rule fr)
  also have "\<dots> = with_root (RootObject doc') (ParseObject P n ?X)"
    by (simp only: ParseObject_CurrentToken_update)
  finally show ?thesis
    by (simp add: Parse_fuel_def split: option.splits sum.splits prod.splits)
qed


text \<open>
  Claim C3 (the header does otherwise). The text \<^verbatim>\<open>{"a": --1}\<close> is lexed into a number
  token \<^verbatim>\<open>--1\<close>, which has no \<^verbatim>\<open>.\<close> and no \<^verbatim>\<open>e\<close>, so \<^verbatim>\<open>ParseValue\<close> hands it to
  \<^verbatim>\<open>std::stoll\<close>. The \<^verbatim>\<open>std::invalid_argument\<close> it throws leaves \<^verbatim>\<open>Parse\<close>: no error is
  recorded and the call does not return.
\<close>

theorem C3_malformed_number_throws:
  "Parse_fuel P (Suc (Suc (Suc n))) (''{'' @ [CHR 0x22] @ ''a'' @ [CHR 0x22] @ '': --1}'') doc
     = Some (Inl invalid_argument)"
  by (simp add: parse_eval tok_eval)

text \<open>
  Claim C4 (the header does otherwise). \<^verbatim>\<open>IsFloat\<close> looks for \<^verbatim>\<open>.\<close> and for lower-case
  \<^verbatim>\<open>e\<close> only: the token \<^verbatim>\<open>1E5\<close> of \<^verbatim>\<open>{"a": 1E5}\<close> goes to \<^verbatim>\<open>std::stoll\<close>, which reads
  the digits before the \<^verbatim>\<open>E\<close>, and the member becomes the integer 1.
\<close>

theorem C4_uppercase_exponent_is_integer:
  "\<not> IsFloat ''1E5'' \<and> IsFloat ''1e5'' \<and> IsFloat ''1.5'' \<and>
   map_option (map_sum id RootObject)
     (Parse_fuel P (Suc (Suc (Suc n))) (''{'' @ [CHR 0x22] @ ''a'' @ [CHR 0x22] @ '': 1E5}'') doc)
     = Some (Inr (Some [(''a'', Int64 1)]))"
  by (simp add: parse_eval tok_eval)

text \<open>
  Claim C5, as stated, fails: after the error in \<^verbatim>\<open>{"a": 1, "b": }\<close> the document has no
  root object at all, and so no member \<^verbatim>\<open>a\<close>.
\<close>

theorem C5_partial_tree_counterexample:
  "map_option (map_sum id HasError)
     (Parse_fuel whole_doubles (Suc (Suc (Suc (Suc (Suc 0)))))
        (''{'' @ [CHR 0x22] @ ''a'' @ [CHR 0x22] @ '': 1, '' @ [CHR 0x22] @ ''b'' @ [CHR 0x22] @ '': }'')
        Json_new) = Some (Inr True) \<and>
   map_option (map_sum id RootObject)
     (Parse_fuel whole_doubles (Suc (Suc (Suc (Suc (Suc 0)))))
        (''{'' @ [CHR 0x22] @ ''a'' @ [CHR 0x22] @ '': 1, '' @ [CHR 0x22] @ ''b'' @ [CHR 0x22] @ '': }'')
        Json_new) = Some (Inr None)"
  by (simp add: parse_eval tok_eval)

text \<open>
  Claim C5, amended. Whenever \<^verbatim>\<open>Parse\<close> returns with an error recorded, the root object
  is the null pointer: every \<^verbatim>\<open>ThrowParserError\<close> and every \<^verbatim>\<open>if(HasError()) return {}\<close>
  gives up the container built so far, at every depth. Nothing parsed before the error is
  kept, and \<^verbatim>\<open>Serialize\<close> yields the empty text. Without an error the root object is
  there.
\<close>

theorem C5_error_leaves_null_root:
  "Parse_fuel P n InputIn doc = Some (Inr st) \<Longrightarrow>
     (HasError st \<longleftrightarrow> RootObject st = None) \<and> (HasError st \<longrightarrow> Serialize P st bPretty = [])"
  using Parse_fuel_error_root [of P n InputIn doc st] by (auto simp: Serialize_def)

lemma to_string_nat_6: "to_string_nat (Suc (Suc (Suc (Suc (Suc (Suc 0)))))) = ''6''"
  by (subst to_string_nat.simps) (simp add: digit_char_def)

lemma example_error_parse:
  "Parse_fuel whole_doubles (Suc (Suc (Suc 0))) (''{'' @ [CHR 0x22] @ ''a'' @ [CHR 0x22] @ '': }'') doc
     = Some (Inr example_error_state)"
  by (simp add: parse_eval tok_eval ErrorLocation_of_def MaxErrorLocation_def
      to_string_nat_6 example_error_state_def)

theorem C5_error_leaves_null_root_witness:
  "Parse_fuel whole_doubles (Suc (Suc (Suc 0))) (''{'' @ [CHR 0x22] @ ''a'' @ [CHR 0x22] @ '': }'') Json_new
     = Some (Inr example_error_state) \<and>
   HasError example_error_state \<and> RootObject example_error_state = None \<and>
   Serialize whole_doubles example_error_state False = []"
  using C5_error_leaves_null_root [OF example_error_parse [of Json_new], of False]
    example_error_parse [of Json_new]
  by (simp add: HasError_def example_error_state_def)

text \<open>
  Claim C6. Once the error slot is set, \<^verbatim>\<open>ThrowError\<close> changes nothing, fetching a token
  keeps the message, and so does every parser method, however much it still parses: the
  first message stays. Parsing a text again after \<^verbatim>\<open>Reset\<close> leaves the very same document,
  with the same message character for character, since \<^verbatim>\<open>Parse\<close> reads nothing of the
  document it is called on.
\<close>

theorem C6_first_error_wins:
  "(HasError st \<longrightarrow> ThrowError Token message st = st)
   \<and> (ErrorMessage st = Some e \<longrightarrow> ErrorMessage (UpdateToken bPeak st) = Some e)
   \<and> (ErrorMessage st = Some e \<and> ParseValue P n st = Some (Inr (v, st')) \<longrightarrow>
         ErrorMessage st' = Some e)
   \<and> (ErrorMessage st = Some e \<and> ParseArray P n st = Some (Inr (a, st')) \<longrightarrow>
         ErrorMessage st' = Some e)
   \<and> (ErrorMessage st = Some e \<and> ParseObject P n st = Some (Inr (ob, st')) \<longrightarrow>
         ErrorMessage st' = Some e)
   \<and> (Parse_fuel P n InputIn doc = Some (Inr st1) \<longrightarrow>
         Parse_fuel P n InputIn (Reset bCreateRoot st1) = Some (Inr st1))"
proof (intro conjI impI)
  show "ThrowError Token message st = st" if "HasError st"
    using that by (rule ThrowError_noop)
  show "ErrorMessage (UpdateToken bPeak st) = Some e" if "ErrorMessage st = Some e"
    using that by (rule UpdateToken_kept)
  show "ErrorMessage st' = Some e"
    if "ErrorMessage st = Some e \<and> ParseValue P n st = Some (Inr (v, st'))"
    using that latch_all [of e P n] by blast
  show "ErrorMessage st' = Some e"
    if "ErrorMessage st = Some e \<and> ParseArray P n st = Some (Inr (a, st'))"
    using that latch_all [of e P n] by blast
  show "ErrorMessage st' = Some e"
    if "ErrorMessage st = Some e \<and> ParseObject P n st = Some (Inr (ob, st'))"
    using that latch_all [of e P n] by blast
  show "Parse_fuel P n InputIn (Reset bCreateRoot st1) = Some (Inr st1)"
    if "Parse_fuel P n InputIn doc = Some (Inr st1)"
    using that by (simp only: Parse_fuel_independent [of P n InputIn "Reset bCreateRoot st1" doc])
qed

theorem C6_first_error_wins_witness:
  "Parse_fuel whole_doubles (Suc (Suc (Suc 0))) (''{'' @ [CHR 0x22] @ ''a'' @ [CHR 0x22] @ '': }'') Json_new
     = Some (Inr example_error_state) \<and>
   HasError example_error_state \<and>
   Parse_fuel whole_doubles (Suc (Suc (Suc 0))) (''{'' @ [CHR 0x22] @ ''a'' @ [CHR 0x22] @ '': }'')
     (Reset True example_error_state) = Some (Inr example_error_state)"
  using C6_first_error_wins
    [where P = whole_doubles and n = "Suc (Suc (Suc 0))" and doc = Json_new and bCreateRoot = True
       and InputIn = "''{'' @ [CHR 0x22] @ ''a'' @ [CHR 0x22] @ '': }''"
       and ?st1.0 = example_error_state,
     THEN conjunct2, THEN conjunct2, THEN conjunct2, THEN conjunct2, THEN conjunct2, rule_format,
     OF example_error_parse [of Json_new]]
    example_error_parse [of Json_new]
  by (simp add: HasError_def example_error_state_def)


section \<open>Serialisation of undefined slots and defaulted reads\<close>

lemma to_string_nat_digit: "n < 10 \<Longrightarrow> to_string_nat n = [digit_char n]"
  by (subst to_string_nat.simps) simp

lemma SerializeObject_loop_prefix:
  "SerializeObject_loop P ps W R b d = R @ SerializeObject_loop P ps W [] b d"
proof (induction ps arbitrary: W R)
  case Nil
  show ?case by simp
next
  case (Cons a ps)
  obtain k v where a: "a = (k, v)" by (cases a)
  show ?case
    unfolding a
    by (simp add: Let_def Cons.IH [of "Suc W" "_ @ _"] Cons.IH [of "Suc W" "_ # _"])
qed

lemma SerializeArray_loop_prefix:
  "SerializeArray_loop P vs W R b d = R @ SerializeArray_loop P vs W [] b d"
proof (induction vs arbitrary: W R)
  case Nil
  show ?case by simp
next
  case (Cons a vs)
  show ?case
    by (simp add: Let_def Cons.IH [of "Suc W" "_ @ _"] Cons.IH [of "Suc W" "_ # _"])
qed

lemma SerializeObject_loop_Written_eq:
  "0 < W \<Longrightarrow> 0 < W' \<Longrightarrow>
     SerializeObject_loop P ps W R b d = SerializeObject_loop P ps W' R b d"
proof (induction ps arbitrary: W W' R)
  case Nil
  show ?case by simp
next
  case (Cons a ps)
  obtain k v where a: "a = (k, v)" by (cases a)
  show ?case
    unfolding a using Cons.prems
    by (simp add: Let_def Cons.IH [of "Suc W" "Suc W'"])
qed

lemma SerializeArray_loop_Written_eq:
  "0 < W \<Longrightarrow> 0 < W' \<Longrightarrow>
     SerializeArray_loop P vs W R b d = SerializeArray_loop P vs W' R b d"
proof (induction vs arbitrary: W W' R)
  case Nil
  show ?case by simp
next
  case (Cons a vs)
  show ?case
    using Cons.prems
    by (simp add: Let_def Cons.IH [of "Suc W" "Suc W'"])
qed

lemma SerializeObject_loop_Written:
  "0 < W \<Longrightarrow> SerializeObject_loop P ps W R b d = SerializeObject_loop P ps 1 R b d"
  by (rule SerializeObject_loop_Written_eq) simp_all

lemma SerializeArray_loop_Written:
  "0 < W \<Longrightarrow> SerializeArray_loop P vs W R b d = SerializeArray_loop P vs 1 R b d"
  by (rule SerializeArray_loop_Written_eq) simp_all





text \<open>
  Claim C2, as stated, fails: on the empty document the lookup \<^verbatim>\<open>doc["x"]\<close> alone
  inserts the key.
\<close>

theorem C2_lookup_inserts_counterexample:
  "RootObject (Json_new :: int Json) = Some [] \<and>
   Properties_find ([] :: int JsonObject) ''x'' = None \<and>
   RootObject (fst (Json_index (Json_new :: int Json) ''x'')) = Some [(''x'', UndefinedValue)] \<and>
   fst (Json_index (Json_new :: int Json) ''x'') \<noteq> Json_new"
  by (simp add: Json_new_def Json_index_def Properties_index_def Properties_find_def)

text \<open>
  Claim C2, amended. On a document without a member \<^verbatim>\<open>x\<close>, \<^verbatim>\<open>doc["x"]\<close> inserts a member
  holding \<^verbatim>\<open>UndefinedValue\<close>, as every non-const lookup does, and
  \<^verbatim>\<open>.Or(7).GetAs<int>()\<close> then yields 7 and leaves that slot undefined. Where \<^verbatim>\<open>x\<close> holds the
  integer 5 the document stays as it is and the read yields 5. A defaulted read writes to no
  slot, whether the type of the slot matches or not; on a mismatch it yields the default,
  or throws when the default is of another type too.
\<close>

theorem C2_defaulted_read:
  "(RootObject doc = Some root \<and> Properties_find root ''x'' = None \<longrightarrow>
        fst (Json_index doc ''x'') = doc\<lparr>RootObject := Some (root @ [(''x'', UndefinedValue)])\<rparr>
      \<and> Get_Internal_Or T_int64 (root @ [(''x'', UndefinedValue)])
            (Or (snd (Json_index doc ''x'')) (Int64 7))
          = Inr (root @ [(''x'', UndefinedValue)], Int64 7))
   \<and> (RootObject doc = Some root \<and> Properties_find root ''x'' = Some (Int64 5) \<longrightarrow>
        fst (Json_index doc ''x'') = doc
      \<and> Get_Internal_Or T_int64 root (Or (snd (Json_index doc ''x'')) (Int64 7)) = Inr (root, Int64 5))
   \<and> (Get_Internal_Or T Properties w = Inr (Properties', v) \<longrightarrow> Properties' = Properties)
   \<and> (\<not> HasType T (slot_value Properties (Value_ref w)) \<longrightarrow>
        Get_Internal_Or T Properties w
          = (if HasType T (DefaultValue w) then Inr (Properties, DefaultValue w)
             else Inl (runtime_error ''Or value is not of the requested type'')))"
proof (intro conjI impI)
  assume a: "RootObject doc = Some root \<and> Properties_find root ''x'' = None"
  then have m: "map_of root ''x'' = None"
    by (simp add: Properties_find_def)
  show "fst (Json_index doc ''x'') = doc\<lparr>RootObject := Some (root @ [(''x'', UndefinedValue)])\<rparr>"
    using a by (simp add: Json_index_def Properties_index_absent)
  show "Get_Internal_Or T_int64 (root @ [(''x'', UndefinedValue)])
            (Or (snd (Json_index doc ''x'')) (Int64 7))
          = Inr (root @ [(''x'', UndefinedValue)], Int64 7)"
    using map_of_append_absent [OF m, of UndefinedValue]
    by (simp add: Json_index_def Get_Internal_Or_def Or_def slot_value_def Let_def
        del: map_of_append)
next
  assume a: "RootObject doc = Some root \<and> Properties_find root ''x'' = Some (Int64 5)"
  show "fst (Json_index doc ''x'') = doc"
    using a by (simp add: Json_index_def Properties_index_present)
  show "Get_Internal_Or T_int64 root (Or (snd (Json_index doc ''x'')) (Int64 7)) = Inr (root, Int64 5)"
    using a
    by (simp add: Json_index_def Get_Internal_Or_def Or_def slot_value_def Let_def
        Properties_find_def)
next
  assume "Get_Internal_Or T Properties w = Inr (Properties', v)"
  then show "Properties' = Properties"
    by (auto simp: Get_Internal_Or_def split: if_splits)
next
  assume "\<not> HasType T (slot_value Properties (Value_ref w))"
  then show "Get_Internal_Or T Properties w
          = (if HasType T (DefaultValue w) then Inr (Properties, DefaultValue w)
             else Inl (runtime_error ''Or value is not of the requested type''))"
    by (simp add: Get_Internal_Or_def)
qed


theorem C2_defaulted_read_witness:
  "RootObject (Json_new :: int Json) = Some [] \<and>
   Properties_find ([] :: int JsonObject) ''x'' = None \<and>
   Get_Internal_Or T_int64 [(''x'', UndefinedValue :: int JsonValue)]
       (Or (snd (Json_index (Json_new :: int Json) ''x'')) (Int64 7))
     = Inr ([(''x'', UndefinedValue)], Int64 7) \<and>
   RootObject ((Json_new :: int Json)\<lparr>RootObject := Some [(''x'', Int64 5)]\<rparr>) = Some [(''x'', Int64 5)] \<and>
   Properties_find [(''x'', Int64 5 :: int JsonValue)] ''x'' = Some (Int64 5) \<and>
   fst (Json_index ((Json_new :: int Json)\<lparr>RootObject := Some [(''x'', Int64 5)]\<rparr>) ''x'')
     = Json_new\<lparr>RootObject := Some [(''x'', Int64 5)]\<rparr> \<and>
   Get_Internal_Or T_int64 [(''x'', Int64 5 :: int JsonValue)]
       (Or (snd (Json_index ((Json_new :: int Json)\<lparr>RootObject := Some [(''x'', Int64 5)]\<rparr>) ''x''))
          (Int64 7))
     = Inr ([(''x'', Int64 5)], Int64 5)"
proof -
  have h1: "RootObject (Json_new :: int Json) = Some [] \<and>
      Properties_find ([] :: int JsonObject) ''x'' = None"
    by (simp add: Json_new_def Properties_find_def)
  have h2: "RootObject ((Json_new :: int Json)\<lparr>RootObject := Some [(''x'', Int64 5)]\<rparr>)
        = Some [(''x'', Int64 5)] \<and>
      Properties_find [(''x'', Int64 5 :: int JsonValue)] ''x'' = Some (Int64 5)"
    by (simp add: Properties_find_def)
  note t1 = C2_defaulted_read [where doc = "Json_new :: int Json" and root = "[]",
      THEN conjunct1, rule_format, OF h1]
  note t2 = C2_defaulted_read
    [where doc = "(Json_new :: int Json)\<lparr>RootObject := Some [(''x'', Int64 5)]\<rparr>"
       and root = "[(''x'', Int64 5)]", THEN conjunct2, THEN conjunct1, rule_format, OF h2]
  from h1 h2 t1 t2 show ?thesis
    by (simp del: One_nat_def)
qed

section \<open>Round trip through the compact text\<close>

subsection \<open>Integers: \<^verbatim>\<open>std::stoll\<close> reads back what \<^verbatim>\<open>std::to_string\<close> prints\<close>

lemma digit_cases: "d < 10 \<Longrightarrow> d \<in> {0, 1, 2, 3, 4, 5, 6, 7, 8, 9 :: nat}"
  by auto

lemma digit_char_props:
  assumes "d < 10"
  shows "isdigit (digit_char d)" "digit_val (digit_char d) = d"
  using digit_cases [OF assms]
  by (auto simp: digit_char_def isdigit_def digit_val_def)

lemma digits_value_snoc: "digits_value (ds @ [c]) = 10 * digits_value ds + digit_val c"
  by (simp add: digits_value_def)

lemma to_string_nat_props:
  "to_string_nat n \<noteq> [] \<and> (\<forall>c \<in> set (to_string_nat n). isdigit c)
     \<and> digits_value (to_string_nat n) = n"
proof (induction n rule: to_string_nat.induct)
  case (1 n)
  show ?case
  proof (cases "n < 10")
    case True
    then have "to_string_nat n = [digit_char n]"
      by (subst to_string_nat.simps) simp
    then show ?thesis
      using digit_char_props [OF True] by (simp add: digits_value_def)
  next
    case False
    then have e: "to_string_nat n = to_string_nat (n div 10) @ [digit_char (n mod 10)]"
      by (subst to_string_nat.simps) simp
    have m: "n mod 10 < 10" by simp
    show ?thesis
      using "1.IH" [OF False] digit_char_props [OF m]
      by (simp add: e digits_value_snoc)
  qed
qed

lemma isdigit_not_special:
  "isdigit c \<Longrightarrow> \<not> isspace c \<and> c \<noteq> CHR ''-'' \<and> c \<noteq> CHR ''+'' \<and> c \<noteq> CHR ''.'' \<and> c \<noteq> CHR ''e''
     \<and> IsValidNumberChar c"
  by (auto simp: isdigit_def isspace_def IsValidNumberChar_def)

lemma stoll_digits:
  assumes "ds \<noteq> []" "\<forall>c \<in> set ds. isdigit c"
  shows "stoll ds = (if 2 ^ 63 - 1 < int (digits_value ds) then Inl out_of_range
                     else Inr (word_of_int (int (digits_value ds))))"
    and "stoll (CHR ''-'' # ds) = (if - int (digits_value ds) < - (2 ^ 63) then Inl out_of_range
                     else Inr (word_of_int (- int (digits_value ds))))"
proof -
  obtain c cs where ds: "ds = c # cs" using assms(1) by (cases ds) auto
  have c: "isdigit c" using assms(2) ds by simp
  have tw: "takeWhile isdigit ds = ds"
    using assms(2) by (simp add: takeWhile_eq_all_conv)
  have dw: "dropWhile isspace ds = ds"
    using isdigit_not_special [OF c] by (simp add: ds)
  have neg: "\<not> (- (2 ^ 63) :: int) > int (digits_value ds)"
    by (smt (verit) of_nat_0_le_iff zero_less_power)
  have n1: "(case ds of c # r \<Rightarrow> c = CHR ''-'' | [] \<Rightarrow> False) = False"
    using isdigit_not_special [OF c] by (simp add: ds)
  have s2: "(case ds of c # r \<Rightarrow> if c = CHR ''-'' \<or> c = CHR ''+'' then r else ds | [] \<Rightarrow> ds) = ds"
    using isdigit_not_special [OF c] by (simp add: ds)
  show "stoll ds = (if 2 ^ 63 - 1 < int (digits_value ds) then Inl out_of_range
                     else Inr (word_of_int (int (digits_value ds))))"
    using assms(1) neg
    unfolding stoll_def dw Let_def n1 s2 tw
    by simp
  have pos: "\<not> (2 ^ 63 - 1 :: int) < - int (digits_value ds)"
    by (smt (verit) of_nat_0_le_iff zero_less_power)
  show "stoll (CHR ''-'' # ds) = (if - int (digits_value ds) < - (2 ^ 63) then Inl out_of_range
                     else Inr (word_of_int (- int (digits_value ds))))"
    using assms(1) pos
    unfolding stoll_def Let_def
    by (simp add: isspace_def tw)
qed

lemma stoll_to_string_int64: "stoll (to_string_int64 w) = Inr w"
proof (cases "sint w < 0")
  case True
  let ?n = "nat (- sint w)"
  have p: "to_string_nat ?n \<noteq> []" "\<forall>c \<in> set (to_string_nat ?n). isdigit c"
    "digits_value (to_string_nat ?n) = ?n"
    using to_string_nat_props [of ?n] by auto
  have r: "- (2 ^ 63) \<le> sint w"
    using sint_ge [of w] by simp
  show ?thesis
    using True r stoll_digits(2) [OF p(1,2)]
    by (simp add: to_string_int64_def p(3))
next
  case False
  let ?n = "nat (sint w)"
  have p: "to_string_nat ?n \<noteq> []" "\<forall>c \<in> set (to_string_nat ?n). isdigit c"
    "digits_value (to_string_nat ?n) = ?n"
    using to_string_nat_props [of ?n] by auto
  have r: "sint w < 2 ^ 63"
    using sint_lt [of w] by simp
  show ?thesis
    using False r stoll_digits(1) [OF p(1,2)]
    by (simp add: to_string_int64_def p(3))
qed

lemma to_string_int64_token:
  "to_string_int64 w \<noteq> [] \<and> (\<forall>c \<in> set (to_string_int64 w). IsValidNumberChar c)
     \<and> \<not> IsFloat (to_string_int64 w)"
  using to_string_nat_props [of "nat (- sint w)"] to_string_nat_props [of "nat (sint w)"]
    isdigit_not_special
  by (auto simp: to_string_int64_def IsFloat_def IsValidNumberChar_def)

subsection \<open>The tokenizer before a known token\<close>

lemma fill_CurrentToken_ready: "ready Inp p tz \<Longrightarrow> fill_CurrentToken tz = cached Inp p"
  by (cases tz) (auto simp: ready_def cached_def fill_CurrentToken_def split: prod.splits)

lemma PeekToken_ready: "ready Inp p tz \<Longrightarrow> PeekToken tz = (fst (NextToken Inp p), cached Inp p)"
  by (simp add: PeekToken_def fill_CurrentToken_ready cached_def)

lemma GetToken_ready:
  "ready Inp p tz \<Longrightarrow>
     GetToken tz = (fst (NextToken Inp p), cached Inp (snd (NextToken Inp p)))"
  by (simp add: GetToken_def fill_CurrentToken_ready cached_def split: prod.splits)

lemma ready_Init: "ready Inp 0 (Init Inp)"
  by (simp add: ready_def Init_def mk_token_def)

lemma ready_cached: "Type (fst (NextToken Inp p)) \<noteq> Invalid \<Longrightarrow> ready Inp p (cached Inp p)"
  by (simp add: ready_def)

lemma Json_Peek_ready:
  "ready Inp p (Tokenizer st) \<Longrightarrow> Type (fst (NextToken Inp p)) \<noteq> Invalid \<Longrightarrow>
     Json_Peek st = st\<lparr>Tokenizer := cached Inp p, CurrentToken := fst (NextToken Inp p)\<rparr>"
  by (simp add: Json_Peek_def UpdateToken_def PeekToken_ready)

lemma Consume_ready:
  "ready Inp p (Tokenizer st) \<Longrightarrow> Type (fst (NextToken Inp p)) \<noteq> Invalid \<Longrightarrow>
     Consume st = st\<lparr>Tokenizer := cached Inp (snd (NextToken Inp p)),
                     CurrentToken := fst (NextToken Inp p)\<rparr>"
  by (simp add: Consume_def UpdateToken_def GetToken_ready)

lemma cached_space:
  "isspace c \<Longrightarrow> cached (pre @ c # rest) (length pre) = cached (pre @ c # rest) (Suc (length pre))"
  by (simp add: cached_def NextToken_at_space)

subsection \<open>The shape of the compact text\<close>

lemma txt_Array:
  "SerializeValue P (ArrayPtr vs) [] False d
     = ''['' @ SerializeArray_loop P vs 0 [] False (d + 1) @ '']''"
  using SerializeArray_loop_prefix [of P vs 0 "''[''" False "d + 1"] by (simp add: Let_def)

lemma txt_Object:
  "SerializeValue P (ObjectPtr ps) [] False d
     = ''{'' @ SerializeObject_loop P ps 0 [] False (d + 1) @ ''}''"
  using SerializeObject_loop_prefix [of P ps 0 "''{''" False "d + 1"] by (simp add: Let_def)

lemma SerializeObject_compact:
  "SerializeObject P ps [] False d = ''{'' @ SerializeObject_loop P ps 0 [] False d @ ''}''"
  using SerializeObject_loop_prefix [of P ps 0 "''{''" False d] by (simp add: Let_def)

lemma elems_Cons:
  "SerializeArray_loop P (v # vs) 0 [] False d
     = SerializeValue P v [] False d @ SerializeArray_loop P vs (Suc 0) [] False d"
  using SerializeArray_loop_prefix [of P vs 1 "SerializeValue P v [] False d" False d]
  by (simp add: Let_def)

lemma elems_comma:
  "SerializeArray_loop P (v # vs) (Suc 0) [] False d = '','' @ SerializeArray_loop P (v # vs) 0 [] False d"
  using SerializeArray_loop_prefix [of P vs "Suc 0" "SerializeValue P v [] False d" False d]
    SerializeArray_loop_prefix [of P vs "Suc (Suc 0)" "CHR '','' # SerializeValue P v [] False d" False d]
    SerializeArray_loop_Written [of "Suc (Suc 0)" P vs "[]" False d]
  by (simp add: Let_def)

lemma members_Cons:
  "SerializeObject_loop P ((k, v) # ps) 0 [] False d
     = [CHR 0x22] @ k @ [CHR 0x22] @ '': '' @ SerializeValue P v [] False d
       @ SerializeObject_loop P ps (Suc 0) [] False d"
  using SerializeObject_loop_prefix
    [of P ps 1 "[CHR 0x22] @ k @ [CHR 0x22] @ '': '' @ SerializeValue P v [] False d" False d]
  by (simp add: Let_def)

lemma members_comma:
  "SerializeObject_loop P ((k, v) # ps) (Suc 0) [] False d
     = '','' @ SerializeObject_loop P ((k, v) # ps) 0 [] False d"
  using SerializeObject_loop_prefix
    [of P ps "Suc 0" "[CHR 0x22] @ k @ [CHR 0x22] @ '': '' @ SerializeValue P v [] False d" False d]
    SerializeObject_loop_prefix
    [of P ps "Suc (Suc 0)" "'','' @ [CHR 0x22] @ k @ [CHR 0x22] @ '': '' @ SerializeValue P v [] False d" False d]
    SerializeObject_loop_Written [of "Suc (Suc 0)" P ps "[]" False d]
  by (simp add: Let_def)

declare SerializeValue.simps(6,7) [simp del] SerializeArray_loop.simps [simp del]
  SerializeObject_loop.simps [simp del]

lemma loops_Nil [simp]:
  "SerializeArray_loop P [] W R b d = R" "SerializeObject_loop P [] W R b d = R"
  by (simp_all add: SerializeArray_loop.simps SerializeObject_loop.simps)

subsection \<open>The first token of a value\<close>

lemma NextToken_Number_type:
  "IsValidNumberChar c \<Longrightarrow> Type (fst (NextToken (pre @ c # rest) (length pre))) = Number"
  using IsValidNumberChar_not_special [of c]
  by (simp add: NextToken_def SkipWhitespace_stop Peek_def ParseNumer_def mk_token_def Let_def
      split: prod.splits)

lemma NextToken_String_type:
  "Type (fst (NextToken (pre @ CHR 0x22 # rest) (length pre))) = String_t"
  by (simp add: NextToken_def SkipWhitespace_stop isspace_def Peek_def ParseString_def mk_token_def
      Let_def split: prod.splits)

lemma first_token:
  assumes "roundtrip_ok P v"
  shows "Type (fst (NextToken (pre @ SerializeValue P v [] False d @ rest) (length pre))) \<in> value_start"
proof (cases v)
  case UndefinedValue
  with assms show ?thesis by simp
next
  case Null
  then show ?thesis
    using NextToken_keyword(1) [of pre rest] by (simp add: value_start_def)
next
  case (Bool b)
  then show ?thesis
    using NextToken_keyword(2) [of pre rest] NextToken_keyword(3) [of pre rest]
    by (simp add: value_start_def)
next
  case (Int64 w)
  obtain c cs where t: "to_string_int64 w = c # cs" and c: "IsValidNumberChar c"
    using to_string_int64_token [of w] by (cases "to_string_int64 w") auto
  show ?thesis
    using NextToken_Number_type [OF c, of pre "cs @ rest"] by (simp add: Int64 t value_start_def)
next
  case (Double x)
  with assms have ok: "float_text_ok P x" by simp
  obtain c cs where t: "to_string_double P x = c # cs" and c: "IsValidNumberChar c"
    using ok by (cases "to_string_double P x") (auto simp: float_text_ok_def Let_def)
  show ?thesis
    using NextToken_Number_type [OF c, of pre "cs @ rest"] by (simp add: Double t value_start_def)
next
  case (String s)
  show ?thesis
    using NextToken_String_type [of pre "s @ CHR 0x22 # rest"] by (simp add: String value_start_def)
next
  case (ArrayPtr vs)
  show ?thesis
    unfolding ArrayPtr txt_Array
    using NextToken_structural(3) [of pre "SerializeArray_loop P vs 0 [] False (d + 1) @ '']'' @ rest"]
    by (simp add: value_start_def mk_token_def)
next
  case (ObjectPtr ps)
  show ?thesis
    unfolding ObjectPtr txt_Object
    using NextToken_structural(1) [of pre "SerializeObject_loop P ps 0 [] False (d + 1) @ ''}'' @ rest"]
    by (simp add: value_start_def mk_token_def)
qed

subsection \<open>Scalars\<close>

declare ParseValue.simps [simp del] ParseArray.simps [simp del] ParseArray_loop.simps [simp del]
  ParseObject.simps [simp del] ParseObject_loop.simps [simp del]

lemma ParseValue_one_token:
  assumes r: "ready Inp p (Tokenizer st)" and nt: "NextToken Inp p = (tk, q)"
  shows "Type tk = Null_t \<Longrightarrow>
           ParseValue P (Suc m) st
             = Some (Inr (Null, st\<lparr>Tokenizer := cached Inp q, CurrentToken := tk\<rparr>))"
    and "Type tk = Boolean \<Longrightarrow>
           ParseValue P (Suc m) st
             = Some (Inr (Bool (Value tk = ''true''), st\<lparr>Tokenizer := cached Inp q, CurrentToken := tk\<rparr>))"
    and "Type tk = String_t \<Longrightarrow>
           ParseValue P (Suc m) st
             = Some (Inr (String (Value tk), st\<lparr>Tokenizer := cached Inp q, CurrentToken := tk\<rparr>))"
    and "Type tk = Number \<Longrightarrow> \<not> IsFloat (Value tk) \<Longrightarrow> stoll (Value tk) = Inr i \<Longrightarrow>
           ParseValue P (Suc m) st
             = Some (Inr (Int64 i, st\<lparr>Tokenizer := cached Inp q, CurrentToken := tk\<rparr>))"
    and "Type tk = Number \<Longrightarrow> IsFloat (Value tk) \<Longrightarrow> stod P (Value tk) = Inr x \<Longrightarrow>
           ParseValue P (Suc m) st
             = Some (Inr (Double x, st\<lparr>Tokenizer := cached Inp q, CurrentToken := tk\<rparr>))"
proof -
  have pk: "Type tk \<noteq> Invalid \<Longrightarrow>
      Json_Peek st = st\<lparr>Tokenizer := cached Inp p, CurrentToken := tk\<rparr>"
    using Json_Peek_ready [OF r] nt by simp
  have cs: "Type tk \<noteq> Invalid \<Longrightarrow>
      Consume (st\<lparr>Tokenizer := cached Inp p, CurrentToken := tk\<rparr>)
        = st\<lparr>Tokenizer := cached Inp q, CurrentToken := tk\<rparr>"
    using Consume_ready [of Inp p "st\<lparr>Tokenizer := cached Inp p, CurrentToken := tk\<rparr>"]
      ready_cached [of Inp p] nt by simp
  show "Type tk = Null_t \<Longrightarrow>
           ParseValue P (Suc m) st
             = Some (Inr (Null, st\<lparr>Tokenizer := cached Inp q, CurrentToken := tk\<rparr>))"
    using pk cs by (simp add: ParseValue.simps Let_def)
  show "Type tk = Boolean \<Longrightarrow>
           ParseValue P (Suc m) st
             = Some (Inr (Bool (Value tk = ''true''), st\<lparr>Tokenizer := cached Inp q, CurrentToken := tk\<rparr>))"
    using pk cs by (simp add: ParseValue.simps Let_def)
  show "Type tk = String_t \<Longrightarrow>
           ParseValue P (Suc m) st
             = Some (Inr (String (Value tk), st\<lparr>Tokenizer := cached Inp q, CurrentToken := tk\<rparr>))"
    using pk cs by (simp add: ParseValue.simps Let_def)
  show "Type tk = Number \<Longrightarrow> \<not> IsFloat (Value tk) \<Longrightarrow> stoll (Value tk) = Inr i \<Longrightarrow>
           ParseValue P (Suc m) st
             = Some (Inr (Int64 i, st\<lparr>Tokenizer := cached Inp q, CurrentToken := tk\<rparr>))"
    using pk cs by (simp add: ParseValue.simps Let_def)
  show "Type tk = Number \<Longrightarrow> IsFloat (Value tk) \<Longrightarrow> stod P (Value tk) = Inr x \<Longrightarrow>
           ParseValue P (Suc m) st
             = Some (Inr (Double x, st\<lparr>Tokenizer := cached Inp q, CurrentToken := tk\<rparr>))"
    using pk cs by (simp add: ParseValue.simps Let_def)
qed

lemma back_value_I:
  assumes "\<And>m (st :: 'f Json) pre rest d.
        ready (pre @ SerializeValue P v [] False d @ rest) (length pre) (Tokenizer st) \<Longrightarrow>
        ErrorMessage st = None \<Longrightarrow> \<not> IsValidNumberChar (Peek rest 0) \<Longrightarrow>
        \<exists>t. ParseValue P (Suc (N + m)) st
           = Some (Inr (v, st\<lparr>Tokenizer := cached (pre @ SerializeValue P v [] False d @ rest)
                                  (length pre + length (SerializeValue P v [] False d)),
                               CurrentToken := t\<rparr>))"
  shows "back_value (Suc N) P v"
  unfolding back_value_def
proof (intro allI impI)
  fix n :: nat and st :: "'f Json" and pre rest d
  assume n: "Suc N \<le> n"
    and a: "ready (pre @ SerializeValue P v [] False d @ rest) (length pre) (Tokenizer st)"
      "ErrorMessage st = None" "\<not> IsValidNumberChar (Peek rest 0)"
  from n obtain m where "n = Suc (N + m)"
    by (metis add_Suc le_Suc_ex)
  with assms [OF a, of m]
  show "\<exists>t. ParseValue P n st
           = Some (Inr (v, st\<lparr>Tokenizer := cached (pre @ SerializeValue P v [] False d @ rest)
                                  (length pre + length (SerializeValue P v [] False d)),
                               CurrentToken := t\<rparr>))"
    by simp
qed

lemma back_Null: "back_value (Suc 0) P Null"
proof (rule back_value_I [where N = 0])
  fix m and st :: "'a Json" and pre rest d
  assume r: "ready (pre @ SerializeValue P Null [] False d @ rest) (length pre) (Tokenizer st)"
  have nt: "NextToken (pre @ ''null'' @ rest) (length pre)
      = (\<lparr>Type = Null_t, Position = length pre, Value = ''null''\<rparr>, length pre + 4)"
    by (rule NextToken_keyword)
  show "\<exists>t. ParseValue P (Suc (0 + m)) st
           = Some (Inr (Null, st\<lparr>Tokenizer := cached (pre @ SerializeValue P Null [] False d @ rest)
                                  (length pre + length (SerializeValue P Null [] False d)),
                               CurrentToken := t\<rparr>))"
    apply (rule exI [of _ "\<lparr>Type = Null_t, Position = length pre, Value = ''null''\<rparr>"])
    apply (simp only: add_0)
    apply (subst ParseValue_one_token(1) [OF _ nt, of st P m])
    using r by (simp_all add: eval_nat_numeral)
qed

lemma back_Bool: "back_value (Suc 0) P (Bool b)"
proof (rule back_value_I [where N = 0])
  fix m and st :: "'a Json" and pre rest d
  assume r: "ready (pre @ SerializeValue P (Bool b) [] False d @ rest) (length pre) (Tokenizer st)"
  show "\<exists>t. ParseValue P (Suc (0 + m)) st
           = Some (Inr (Bool b, st\<lparr>Tokenizer := cached (pre @ SerializeValue P (Bool b) [] False d @ rest)
                                  (length pre + length (SerializeValue P (Bool b) [] False d)),
                               CurrentToken := t\<rparr>))"
  proof (cases b)
    case True
    show ?thesis
      apply (rule exI [of _ "\<lparr>Type = Boolean, Position = length pre, Value = ''true''\<rparr>"])
      apply (simp only: add_0)
      apply (subst ParseValue_one_token(2) [OF _ NextToken_keyword(2) [of pre rest], of st P m])
      using r by (simp_all add: True eval_nat_numeral)
  next
    case False
    show ?thesis
      apply (rule exI [of _ "\<lparr>Type = Boolean, Position = length pre, Value = ''false''\<rparr>"])
      apply (simp only: add_0)
      apply (subst ParseValue_one_token(2) [OF _ NextToken_keyword(3) [of pre rest], of st P m])
      using r by (simp_all add: False eval_nat_numeral)
  qed
qed

lemma back_String: assumes "plain s" shows "back_value (Suc 0) P (String s)"
proof (rule back_value_I [where N = 0])
  fix m and st :: "'a Json" and pre rest d
  assume r: "ready (pre @ SerializeValue P (String s) [] False d @ rest) (length pre) (Tokenizer st)"
  have nt: "NextToken (pre @ CHR 0x22 # s @ CHR 0x22 # rest) (length pre)
      = (mk_token String_t (length pre) s, length pre + length s + 2)"
    using NextToken_String [of s pre rest] plain_body [OF assms] by simp
  show "\<exists>t. ParseValue P (Suc (0 + m)) st
           = Some (Inr (String s, st\<lparr>Tokenizer := cached (pre @ SerializeValue P (String s) [] False d @ rest)
                                  (length pre + length (SerializeValue P (String s) [] False d)),
                               CurrentToken := t\<rparr>))"
    apply (rule exI [of _ "mk_token String_t (length pre) s"])
    apply (simp only: add_0)
    apply (subst ParseValue_one_token(3) [OF _ nt, of st P m])
    using r by (simp_all add: mk_token_def)
qed

lemma back_number_token:
  assumes "t \<noteq> []" "\<forall>c \<in> set t. IsValidNumberChar c" "\<not> IsValidNumberChar (Peek rest 0)"
  shows "NextToken (pre @ t @ rest) (length pre) = (mk_token Number (length pre) t, length pre + length t)"
proof (rule NextToken_Number [OF assms(1,2)])
  show "\<not> IsValidNumberChar (Peek (pre @ t @ rest) (length pre + length t))"
    using assms(3) by (auto simp: Peek_def nth_append split: if_splits)
qed

lemma back_Int64: "back_value (Suc 0) P (Int64 w)"
proof (rule back_value_I [where N = 0])
  fix m and st :: "'a Json" and pre rest d
  assume r: "ready (pre @ SerializeValue P (Int64 w) [] False d @ rest) (length pre) (Tokenizer st)"
    and nn: "\<not> IsValidNumberChar (Peek rest 0)"
  have nt: "NextToken (pre @ to_string_int64 w @ rest) (length pre)
      = (mk_token Number (length pre) (to_string_int64 w), length pre + length (to_string_int64 w))"
    using to_string_int64_token [of w] nn by (intro back_number_token) auto
  show "\<exists>t. ParseValue P (Suc (0 + m)) st
           = Some (Inr (Int64 w, st\<lparr>Tokenizer := cached (pre @ SerializeValue P (Int64 w) [] False d @ rest)
                                  (length pre + length (SerializeValue P (Int64 w) [] False d)),
                               CurrentToken := t\<rparr>))"
    apply (rule exI [of _ "mk_token Number (length pre) (to_string_int64 w)"])
    apply (simp only: add_0)
    apply (subst ParseValue_one_token(4) [OF _ nt, of st w P m])
    using r to_string_int64_token [of w] by (simp_all add: mk_token_def stoll_to_string_int64)
qed

lemma back_Double: assumes "float_text_ok P x" shows "back_value (Suc 0) P (Double x)"
proof (rule back_value_I [where N = 0])
  fix m and st :: "'a Json" and pre rest d
  assume r: "ready (pre @ SerializeValue P (Double x) [] False d @ rest) (length pre) (Tokenizer st)"
    and nn: "\<not> IsValidNumberChar (Peek rest 0)"
  have ok: "to_string_double P x \<noteq> []" "\<forall>c \<in> set (to_string_double P x). IsValidNumberChar c"
    "IsFloat (to_string_double P x)" "stod P (to_string_double P x) = Inr x"
    using assms by (simp_all add: float_text_ok_def Let_def)
  have nt: "NextToken (pre @ to_string_double P x @ rest) (length pre)
      = (mk_token Number (length pre) (to_string_double P x), length pre + length (to_string_double P x))"
    using ok nn by (intro back_number_token) auto
  show "\<exists>t. ParseValue P (Suc (0 + m)) st
           = Some (Inr (Double x, st\<lparr>Tokenizer := cached (pre @ SerializeValue P (Double x) [] False d @ rest)
                                  (length pre + length (SerializeValue P (Double x) [] False d)),
                               CurrentToken := t\<rparr>))"
    apply (rule exI [of _ "mk_token Number (length pre) (to_string_double P x)"])
    apply (simp only: add_0)
    apply (subst ParseValue_one_token(5) [OF _ nt, of st P x m])
    using r ok by (simp_all add: mk_token_def)
qed

subsection \<open>Arrays and objects\<close>

lemma not_number_delims:
  "\<not> IsValidNumberChar (CHR '','')" "\<not> IsValidNumberChar (CHR '']'')"
  "\<not> IsValidNumberChar (CHR ''}'')" "\<not> IsValidNumberChar (CHR 0x00)"
  by (simp_all add: IsValidNumberChar_def isdigit_def)

lemma back_elems_Cons:
  assumes bv: "back_value Nv P v" and bs: "vs \<noteq> [] \<Longrightarrow> back_elems Ns P vs"
    and ok: "roundtrip_ok_list P vs"
  shows "back_elems (Suc (max Nv Ns)) P (v # vs)"
proof -
  have Nv: "\<And>n (st :: 'a Json) pre rest d. Nv \<le> n \<Longrightarrow>
        ready (pre @ SerializeValue P v [] False d @ rest) (length pre) (Tokenizer st) \<Longrightarrow>
        ErrorMessage st = None \<Longrightarrow> \<not> IsValidNumberChar (Peek rest 0) \<Longrightarrow>
        (\<exists>t. ParseValue P n st
           = Some (Inr (v, st\<lparr>Tokenizer := cached (pre @ SerializeValue P v [] False d @ rest)
                                  (length pre + length (SerializeValue P v [] False d)),
                               CurrentToken := t\<rparr>)))"
    using bv unfolding back_value_def by blast
  have Ns: "\<And>n (st :: 'a Json) pre rest d acc. vs \<noteq> [] \<Longrightarrow> Ns \<le> n \<Longrightarrow>
        ready (pre @ SerializeArray_loop P vs 0 [] False d @ '']'' @ rest) (length pre) (Tokenizer st) \<Longrightarrow>
        ErrorMessage st = None \<Longrightarrow>
        (\<exists>t. ParseArray_loop P n acc st
           = Some (Inr (Some (acc @ vs),
               st\<lparr>Tokenizer := cached (pre @ SerializeArray_loop P vs 0 [] False d @ '']'' @ rest)
                                  (length pre + length (SerializeArray_loop P vs 0 [] False d) + 1),
                  CurrentToken := t\<rparr>)))"
    using bs unfolding back_elems_def by blast
  show ?thesis
    unfolding back_elems_def
  proof (intro allI impI)
    fix n and st :: "'a Json" and pre rest d acc
    assume n: "Suc (max Nv Ns) \<le> n"
      and r: "ready (pre @ SerializeArray_loop P (v # vs) 0 [] False d @ '']'' @ rest) (length pre)
                (Tokenizer st)"
      and e: "ErrorMessage st = None"
    obtain m where m: "n = Suc m" "Nv \<le> m" "Ns \<le> m"
      using n by (cases n) auto
    let ?tv = "SerializeValue P v [] False d"
    let ?B = "SerializeArray_loop P vs (Suc 0) [] False d"
    let ?I = "pre @ ?tv @ ?B @ '']'' @ rest"
    let ?q = "length pre + length ?tv"
    have I: "pre @ SerializeArray_loop P (v # vs) 0 [] False d @ '']'' @ rest = ?I"
      by (simp add: elems_Cons)
    have len: "length (SerializeArray_loop P (v # vs) 0 [] False d) = length ?tv + length ?B"
      by (simp add: elems_Cons)
    have nn: "\<not> IsValidNumberChar (Peek (?B @ '']'' @ rest) 0)"
    proof (cases vs)
      case Nil
      then show ?thesis by (simp add: Peek_def not_number_delims)
    next
      case (Cons v' vs')
      then show ?thesis by (simp add: elems_comma Peek_def not_number_delims)
    qed
    obtain t1 where pv: "ParseValue P m st
        = Some (Inr (v, st\<lparr>Tokenizer := cached ?I ?q, CurrentToken := t1\<rparr>))"
      using Nv [OF m(2) r [unfolded I] e nn] by blast
    let ?st1 = "st\<lparr>Tokenizer := cached ?I ?q, CurrentToken := t1\<rparr>"
    have e1: "\<not> HasError ?st1"
      using e by (simp add: HasError_def)
    show "\<exists>t. ParseArray_loop P n acc st
           = Some (Inr (Some (acc @ v # vs),
               st\<lparr>Tokenizer := cached (pre @ SerializeArray_loop P (v # vs) 0 [] False d @ '']'' @ rest)
                                  (length pre + length (SerializeArray_loop P (v # vs) 0 [] False d) + 1),
                  CurrentToken := t\<rparr>))"
    proof (cases vs)
      case Nil
      have B: "?B = []" by (simp add: Nil)
      have nt: "NextToken ?I ?q = (mk_token ArrayEnd ?q '']'', Suc ?q)"
        using NextToken_structural(4) [of "pre @ ?tv" rest] by (simp add: B)
      have cs: "Consume ?st1 = st\<lparr>Tokenizer := cached ?I (Suc ?q), CurrentToken := mk_token ArrayEnd ?q '']''\<rparr>"
        using Consume_ready [of ?I ?q ?st1] ready_cached [of ?I ?q] nt
        by (simp add: mk_token_def)
      have res: "ParseArray_loop P (Suc m) acc st
          = Some (Inr (Some (acc @ [v]),
              st\<lparr>Tokenizer := cached ?I (Suc ?q), CurrentToken := mk_token ArrayEnd ?q '']''\<rparr>))"
        using e1 pv cs by (subst ParseArray_loop.simps) (simp add: Let_def mk_token_def)
      show ?thesis
        unfolding I len m(1)
        apply (rule exI [of _ "mk_token ArrayEnd ?q '']''"])
        using res by (simp add: Nil)
    next
      case (Cons v' vs')
      let ?E' = "SerializeArray_loop P vs 0 [] False d"
      have B: "?B = '','' @ ?E'" by (simp add: Cons elems_comma)
      have nt: "NextToken ?I ?q = (mk_token Comma ?q '','', Suc ?q)"
        using NextToken_structural(5) [of "pre @ ?tv" "?E' @ '']'' @ rest"] by (simp add: B)
      have cs: "Consume ?st1 = st\<lparr>Tokenizer := cached ?I (Suc ?q), CurrentToken := mk_token Comma ?q '','' \<rparr>"
        using Consume_ready [of ?I ?q ?st1] ready_cached [of ?I ?q] nt
        by (simp add: mk_token_def)
      let ?st2 = "st\<lparr>Tokenizer := cached ?I (Suc ?q), CurrentToken := mk_token Comma ?q '','' \<rparr>"
      have ok': "roundtrip_ok P v'" using ok Cons by simp
      have I2: "?I = (pre @ ?tv @ '','') @ SerializeValue P v' [] False d
                  @ (SerializeArray_loop P vs' (Suc 0) [] False d @ '']'' @ rest)"
        by (simp add: Cons elems_comma elems_Cons)
      have ft: "Type (fst (NextToken ?I (Suc ?q))) \<in> value_start"
        using first_token [OF ok', of "pre @ ?tv @ '',''" d
            "SerializeArray_loop P vs' (Suc 0) [] False d @ '']'' @ rest"]
        unfolding I2 [symmetric] by simp
      then have valid: "Type (fst (NextToken ?I (Suc ?q))) \<noteq> Invalid"
        by (auto simp: value_start_def)
      have rc: "ready ?I (Suc ?q) (cached ?I (Suc ?q))"
        using valid by (rule ready_cached)
      have pk: "Json_Peek ?st2
          = st\<lparr>Tokenizer := cached ?I (Suc ?q), CurrentToken := fst (NextToken ?I (Suc ?q))\<rparr>"
        using Json_Peek_ready [of ?I "Suc ?q" ?st2] rc valid by simp
      let ?st3 = "st\<lparr>Tokenizer := cached ?I (Suc ?q), CurrentToken := fst (NextToken ?I (Suc ?q))\<rparr>"
      have I3: "?I = (pre @ ?tv @ '','') @ ?E' @ '']'' @ rest"
        by (simp add: B)
      have r3: "ready ((pre @ ?tv @ '','') @ ?E' @ '']'' @ rest) (length (pre @ ?tv @ '','')) (Tokenizer ?st3)"
        using rc unfolding I3 [symmetric] by simp
      have vne: "vs \<noteq> []" using Cons by simp
      obtain t3 where lp: "ParseArray_loop P m (acc @ [v]) ?st3
          = Some (Inr (Some ((acc @ [v]) @ vs),
               ?st3\<lparr>Tokenizer := cached ((pre @ ?tv @ '','') @ ?E' @ '']'' @ rest)
                                  (length (pre @ ?tv @ '','') + length ?E' + 1),
                  CurrentToken := t3\<rparr>))"
        using Ns [OF vne m(3) r3, of "acc @ [v]"] e by auto
      have res: "ParseArray_loop P (Suc m) acc st
          = Some (Inr (Some ((acc @ [v]) @ vs),
               st\<lparr>Tokenizer := cached ?I (length (pre @ ?tv @ '','') + length ?E' + 1),
                  CurrentToken := t3\<rparr>))"
        using e1 lp [unfolded I3 [symmetric]] pv cs pk
        by (subst ParseArray_loop.simps) (simp add: Let_def mk_token_def)
      show ?thesis
        unfolding I len m(1)
        apply (rule exI [of _ t3])
        using res by (simp add: B add.assoc)
    qed
  qed
qed

lemma Properties_emplace_fresh:
  "k \<notin> fst ` set acc \<Longrightarrow> Properties_emplace acc k v = acc @ [(k, v)]"
  using map_of_eq_None_iff [of acc k] by (simp add: Properties_emplace_def)

lemma back_members_Cons:
  assumes pk: "plain k" and okv: "roundtrip_ok P v" and bv: "back_value Nv P v"
    and bs: "ps \<noteq> [] \<Longrightarrow> back_members Ns P ps"
  shows "back_members (Suc (max Nv Ns)) P ((k, v) # ps)"
proof -
  have Nv: "\<And>n (st :: 'a Json) pre rest d. Nv \<le> n \<Longrightarrow>
        ready (pre @ SerializeValue P v [] False d @ rest) (length pre) (Tokenizer st) \<Longrightarrow>
        ErrorMessage st = None \<Longrightarrow> \<not> IsValidNumberChar (Peek rest 0) \<Longrightarrow>
        (\<exists>t. ParseValue P n st
           = Some (Inr (v, st\<lparr>Tokenizer := cached (pre @ SerializeValue P v [] False d @ rest)
                                  (length pre + length (SerializeValue P v [] False d)),
                               CurrentToken := t\<rparr>)))"
    using bv unfolding back_value_def by blast
  have Ns: "\<And>n (st :: 'a Json) pre rest d acc. ps \<noteq> [] \<Longrightarrow> Ns \<le> n \<Longrightarrow>
        Tokenizer st = cached (pre @ SerializeObject_loop P ps 0 [] False d @ ''}'' @ rest) (length pre) \<Longrightarrow>
        CurrentToken st
          = fst (NextToken (pre @ SerializeObject_loop P ps 0 [] False d @ ''}'' @ rest) (length pre)) \<Longrightarrow>
        ErrorMessage st = None \<Longrightarrow> distinct (map fst (acc @ ps)) \<Longrightarrow>
        (\<exists>t. ParseObject_loop P n acc st
           = Some (Inr (Some (acc @ ps),
               st\<lparr>Tokenizer := cached (pre @ SerializeObject_loop P ps 0 [] False d @ ''}'' @ rest)
                                  (length pre + length (SerializeObject_loop P ps 0 [] False d) + 1),
                  CurrentToken := t\<rparr>)))"
    using bs unfolding back_members_def by blast
  show ?thesis
    unfolding back_members_def
  proof (intro allI impI)
    fix n and st :: "'a Json" and pre rest d acc
    let ?tv = "SerializeValue P v [] False d"
    let ?G = "SerializeObject_loop P ps (Suc 0) [] False d"
    let ?F = "SerializeObject_loop P ((k, v) # ps) 0 [] False d"
    let ?I = "pre @ CHR 0x22 # k @ CHR 0x22 # CHR '':'' # CHR '' '' # ?tv @ ?G @ CHR ''}'' # rest"
    let ?p = "length pre"
    let ?q = "length pre + length k + 4 + length ?tv"
    assume n: "Suc (max Nv Ns) \<le> n"
      and tz: "Tokenizer st = cached (pre @ ?F @ ''}'' @ rest) (length pre)"
      and ct: "CurrentToken st = fst (NextToken (pre @ ?F @ ''}'' @ rest) (length pre))"
      and e: "ErrorMessage st = None"
      and dist: "distinct (map fst (acc @ (k, v) # ps))"
    obtain m where m: "n = Suc m" "Nv \<le> m" "Ns \<le> m"
      using n by (cases n) auto
    have I: "pre @ ?F @ ''}'' @ rest = ?I"
      by (simp add: members_Cons)
    have len: "length ?F = length k + 4 + length ?tv + length ?G"
      by (simp add: members_Cons)
    have fresh: "k \<notin> fst ` set acc"
      using dist by auto
    have str: "NextToken ?I ?p = (mk_token String_t ?p k, ?p + length k + 2)"
      using NextToken_String [of k pre "CHR '':'' # CHR '' '' # ?tv @ ?G @ CHR ''}'' # rest"]
        plain_body [OF pk] by simp
    have col: "NextToken ?I (?p + length k + 2) = (mk_token Colon (?p + length k + 2) '':'', ?p + length k + 3)"
      using NextToken_structural(6) [of "pre @ CHR 0x22 # k @ [CHR 0x22]" "CHR '' '' # ?tv @ ?G @ CHR ''}'' # rest"]
      by (simp add: eval_nat_numeral)
    have tz': "Tokenizer st = cached ?I ?p" and ct': "CurrentToken st = mk_token String_t ?p k"
      using tz ct str unfolding I by simp_all
    have c1: "Consume st = st\<lparr>Tokenizer := cached ?I (?p + length k + 2), CurrentToken := mk_token String_t ?p k\<rparr>"
      using Consume_ready [of ?I ?p st] ready_cached [of ?I ?p] str tz'
      by (simp add: mk_token_def)
    let ?st1 = "st\<lparr>Tokenizer := cached ?I (?p + length k + 2), CurrentToken := mk_token String_t ?p k\<rparr>"
    have c2: "Consume ?st1
        = st\<lparr>Tokenizer := cached ?I (?p + length k + 3),
             CurrentToken := mk_token Colon (?p + length k + 2) '':''\<rparr>"
      using Consume_ready [of ?I "?p + length k + 2" ?st1] ready_cached [of ?I "?p + length k + 2"] col
      by (simp add: mk_token_def)
    let ?st2 = "st\<lparr>Tokenizer := cached ?I (?p + length k + 3),
             CurrentToken := mk_token Colon (?p + length k + 2) '':''\<rparr>"
    let ?pre2 = "pre @ CHR 0x22 # k @ [CHR 0x22, CHR '':'', CHR '' '']"
    have I2: "?I = ?pre2 @ ?tv @ (?G @ CHR ''}'' # rest)"
      by simp
    have sp: "cached ?I (?p + length k + 3) = cached ?I (?p + length k + 4)"
      using cached_space [of "CHR '' ''" "pre @ CHR 0x22 # k @ [CHR 0x22, CHR '':'']"
          "?tv @ ?G @ CHR ''}'' # rest"]
      by (simp add: isspace_def eval_nat_numeral)
    have ft: "Type (fst (NextToken ?I (?p + length k + 4))) \<in> value_start"
      using first_token [OF okv, of ?pre2 d "?G @ CHR ''}'' # rest"]
      by (simp add: eval_nat_numeral)
    then have valid: "Type (fst (NextToken ?I (?p + length k + 4))) \<noteq> Invalid"
      by (auto simp: value_start_def)
    have r2: "ready (?pre2 @ ?tv @ (?G @ CHR ''}'' # rest)) (length ?pre2) (Tokenizer ?st2)"
      using ready_cached [OF valid] sp by (simp add: eval_nat_numeral)
    have nn: "\<not> IsValidNumberChar (Peek (?G @ CHR ''}'' # rest) 0)"
    proof (cases ps)
      case Nil
      then show ?thesis by (simp add: Peek_def not_number_delims)
    next
      case (Cons a ps')
      obtain k' v' where "a = (k', v')" by (cases a)
      then show ?thesis using Cons by (simp add: members_comma Peek_def not_number_delims)
    qed
    have e2: "ErrorMessage ?st2 = None" using e by simp
    obtain t1 where pv: "ParseValue P m ?st2
        = Some (Inr (v, st\<lparr>Tokenizer := cached ?I ?q, CurrentToken := t1\<rparr>))"
      using Nv [OF m(2) r2 e2 nn] by (auto simp: eval_nat_numeral add.assoc)
    let ?st3 = "st\<lparr>Tokenizer := cached ?I ?q, CurrentToken := t1\<rparr>"
    have e3: "\<not> HasError ?st3"
      using e by (simp add: HasError_def)
    have tk: "Type (mk_token String_t ?p k) = String_t" "Value (mk_token String_t ?p k) = k"
      "Type (mk_token Colon (?p + length k + 2) '':'') = Colon"
      by (simp_all add: mk_token_def)
    show "\<exists>t. ParseObject_loop P n acc st
           = Some (Inr (Some (acc @ (k, v) # ps),
               st\<lparr>Tokenizer := cached (pre @ ?F @ ''}'' @ rest) (length pre + length ?F + 1),
                  CurrentToken := t\<rparr>))"
    proof (cases ps)
      case Nil
      have G: "?G = []" by (simp add: Nil)
      have nt: "NextToken ?I ?q = (mk_token ObjectEnd ?q ''}'', Suc ?q)"
        using NextToken_structural(2) [of "?pre2 @ ?tv" rest] by (simp add: G eval_nat_numeral add.assoc)
      have c3: "Consume ?st3 = st\<lparr>Tokenizer := cached ?I (Suc ?q), CurrentToken := mk_token ObjectEnd ?q ''}''\<rparr>"
        using Consume_ready [of ?I ?q ?st3] ready_cached [of ?I ?q] nt
        by (simp add: mk_token_def)
      have res: "ParseObject_loop P (Suc m) acc st
          = Some (Inr (Some (acc @ [(k, v)]),
              st\<lparr>Tokenizer := cached ?I (Suc ?q), CurrentToken := mk_token ObjectEnd ?q ''}''\<rparr>))"
        using e3 ct' c1 c2 pv c3 tk
        by (subst ParseObject_loop.simps)
           (simp add: Let_def Properties_emplace_fresh [OF fresh] mk_token_def)
      show ?thesis
        unfolding I len m(1)
        apply (rule exI [of _ "mk_token ObjectEnd ?q ''}''"])
        using res by (simp add: Nil add.assoc)
    next
      case (Cons a ps')
      obtain k' v' where a: "a = (k', v')" by (cases a)
      let ?F' = "SerializeObject_loop P ps 0 [] False d"
      have G: "?G = '','' @ ?F'" by (simp add: Cons a members_comma)
      have nt: "NextToken ?I ?q = (mk_token Comma ?q '','', Suc ?q)"
        using NextToken_structural(5) [of "?pre2 @ ?tv" "?F' @ CHR ''}'' # rest"]
        by (simp add: G eval_nat_numeral add.assoc)
      have c3: "Consume ?st3 = st\<lparr>Tokenizer := cached ?I (Suc ?q), CurrentToken := mk_token Comma ?q '','' \<rparr>"
        using Consume_ready [of ?I ?q ?st3] ready_cached [of ?I ?q] nt
        by (simp add: mk_token_def)
      let ?st4 = "st\<lparr>Tokenizer := cached ?I (Suc ?q), CurrentToken := mk_token Comma ?q '','' \<rparr>"
      let ?pre3 = "?pre2 @ ?tv @ '',''"
      have I3: "?I = ?pre3 @ ?F' @ ''}'' @ rest"
        by (simp add: G)
      have l3: "length ?pre3 = Suc ?q"
        by (simp add: eval_nat_numeral)
      have I4: "?I = ?pre3 @ CHR 0x22 # (k' @ CHR 0x22 # CHR '':'' # CHR '' '' # SerializeValue P v' [] False d
                  @ SerializeObject_loop P ps' (Suc 0) [] False d @ CHR ''}'' # rest)"
        by (simp add: Cons a members_comma members_Cons)
      have valid: "Type (fst (NextToken ?I (Suc ?q))) \<noteq> Invalid"
        using NextToken_String_type [of ?pre3 "k' @ CHR 0x22 # CHR '':'' # CHR '' '' # SerializeValue P v' [] False d
                  @ SerializeObject_loop P ps' (Suc 0) [] False d @ CHR ''}'' # rest"]
        unfolding I4 [symmetric] l3 by simp
      have pk4: "Json_Peek ?st4
          = st\<lparr>Tokenizer := cached ?I (Suc ?q), CurrentToken := fst (NextToken ?I (Suc ?q))\<rparr>"
        using Json_Peek_ready [of ?I "Suc ?q" ?st4] ready_cached [OF valid] valid by simp
      let ?st5 = "st\<lparr>Tokenizer := cached ?I (Suc ?q), CurrentToken := fst (NextToken ?I (Suc ?q))\<rparr>"
      have pne: "ps \<noteq> []" using Cons by simp
      have d5: "distinct (map fst ((acc @ [(k, v)]) @ ps))" using dist by simp
      have t5: "Tokenizer ?st5 = cached (?pre3 @ ?F' @ ''}'' @ rest) (length ?pre3)"
        unfolding I3 [symmetric] l3 by simp
      have c5: "CurrentToken ?st5 = fst (NextToken (?pre3 @ ?F' @ ''}'' @ rest) (length ?pre3))"
        unfolding I3 [symmetric] l3 by simp
      have e5: "ErrorMessage ?st5 = None" using e by simp
      obtain t5 where lp: "ParseObject_loop P m (acc @ [(k, v)]) ?st5
          = Some (Inr (Some ((acc @ [(k, v)]) @ ps),
               ?st5\<lparr>Tokenizer := cached (?pre3 @ ?F' @ ''}'' @ rest) (length ?pre3 + length ?F' + 1),
                  CurrentToken := t5\<rparr>))"
        using Ns [OF pne m(3) t5 c5 e5 d5] by blast
      have res: "ParseObject_loop P (Suc m) acc st
          = Some (Inr (Some ((acc @ [(k, v)]) @ ps),
               st\<lparr>Tokenizer := cached ?I (Suc ?q + length ?F' + 1), CurrentToken := t5\<rparr>))"
        using e3 ct' c1 c2 pv c3 pk4 tk lp [unfolded I3 [symmetric] l3]
        by (subst ParseObject_loop.simps)
           (simp add: Let_def Properties_emplace_fresh [OF fresh] mk_token_def)
      show ?thesis
        unfolding I len m(1)
        apply (rule exI [of _ t5])
        using res by (simp add: G add.assoc)
    qed
  qed
qed

lemma ParseArray_back:
  assumes bs: "vs \<noteq> [] \<Longrightarrow> back_elems Ns P vs" and ok: "roundtrip_ok_list P vs"
  shows "\<forall>n\<ge>Suc Ns. \<forall>(st :: 'f Json) pre rest d.
        ready (pre @ ''['' @ SerializeArray_loop P vs 0 [] False d @ '']'' @ rest) (length pre) (Tokenizer st) \<longrightarrow>
        ErrorMessage st = None \<longrightarrow>
        (\<exists>t. ParseArray P n st
           = Some (Inr (Some vs,
               st\<lparr>Tokenizer := cached (pre @ ''['' @ SerializeArray_loop P vs 0 [] False d @ '']'' @ rest)
                                  (length pre + length (SerializeArray_loop P vs 0 [] False d) + 2),
                  CurrentToken := t\<rparr>)))"
proof -
  have Ns: "\<And>n (st :: 'f Json) pre rest d acc. vs \<noteq> [] \<Longrightarrow> Ns \<le> n \<Longrightarrow>
        ready (pre @ SerializeArray_loop P vs 0 [] False d @ '']'' @ rest) (length pre) (Tokenizer st) \<Longrightarrow>
        ErrorMessage st = None \<Longrightarrow>
        (\<exists>t. ParseArray_loop P n acc st
           = Some (Inr (Some (acc @ vs),
               st\<lparr>Tokenizer := cached (pre @ SerializeArray_loop P vs 0 [] False d @ '']'' @ rest)
                                  (length pre + length (SerializeArray_loop P vs 0 [] False d) + 1),
                  CurrentToken := t\<rparr>)))"
    using bs unfolding back_elems_def by blast
  show ?thesis
  proof (intro allI impI)
    fix n and st :: "'f Json" and pre rest d
    let ?E = "SerializeArray_loop P vs 0 [] False d"
    let ?I = "pre @ CHR ''['' # ?E @ CHR '']'' # rest"
    let ?p = "length pre"
    assume n: "Suc Ns \<le> n"
      and r: "ready (pre @ ''['' @ ?E @ '']'' @ rest) (length pre) (Tokenizer st)"
      and e: "ErrorMessage st = None"
    obtain m where m: "n = Suc m" "Ns \<le> m"
      using n by (cases n) auto
    have I: "pre @ ''['' @ ?E @ '']'' @ rest = ?I"
      by simp
    have r': "ready ?I ?p (Tokenizer st)"
      using r by simp
    have nt0: "NextToken ?I ?p = (mk_token ArrayStart ?p ''['', Suc ?p)"
      using NextToken_structural(3) [of pre "?E @ CHR '']'' # rest"] by simp
    have c0: "Consume st = st\<lparr>Tokenizer := cached ?I (Suc ?p), CurrentToken := mk_token ArrayStart ?p ''[''\<rparr>"
      using Consume_ready [OF r'] nt0 by (simp add: mk_token_def)
    let ?st0 = "st\<lparr>Tokenizer := cached ?I (Suc ?p), CurrentToken := mk_token ArrayStart ?p ''[''\<rparr>"
    show "\<exists>t. ParseArray P n st
           = Some (Inr (Some vs,
               st\<lparr>Tokenizer := cached (pre @ ''['' @ ?E @ '']'' @ rest) (length pre + length ?E + 2),
                  CurrentToken := t\<rparr>))"
    proof (cases vs)
      case Nil
      have E: "?E = []" by (simp add: Nil)
      have nt1: "NextToken ?I (Suc ?p) = (mk_token ArrayEnd (Suc ?p) '']'', Suc (Suc ?p))"
        using NextToken_structural(4) [of "pre @ ''[''" rest] by (simp add: E)
      have valid: "Type (fst (NextToken ?I (Suc ?p))) \<noteq> Invalid"
        using nt1 by (simp add: mk_token_def)
      have p1: "Json_Peek ?st0
          = st\<lparr>Tokenizer := cached ?I (Suc ?p), CurrentToken := mk_token ArrayEnd (Suc ?p) '']''\<rparr>"
        using Json_Peek_ready [of ?I "Suc ?p" ?st0] ready_cached [OF valid] valid nt1 by simp
      let ?st1 = "st\<lparr>Tokenizer := cached ?I (Suc ?p), CurrentToken := mk_token ArrayEnd (Suc ?p) '']''\<rparr>"
      have c1: "Consume ?st1
          = st\<lparr>Tokenizer := cached ?I (Suc (Suc ?p)), CurrentToken := mk_token ArrayEnd (Suc ?p) '']''\<rparr>"
        using Consume_ready [of ?I "Suc ?p" ?st1] ready_cached [OF valid] valid nt1 by simp
      have res: "ParseArray P (Suc m) st
          = Some (Inr (Some [],
              st\<lparr>Tokenizer := cached ?I (Suc (Suc ?p)), CurrentToken := mk_token ArrayEnd (Suc ?p) '']''\<rparr>))"
        using c0 p1 c1
        by (subst ParseArray.simps) (simp add: Let_def mk_token_def)
      show ?thesis
        unfolding I m(1)
        apply (rule exI [of _ "mk_token ArrayEnd (Suc ?p) '']''"])
        using res by (simp add: Nil)
    next
      case (Cons v vs')
      have okv: "roundtrip_ok P v" using ok Cons by simp
      let ?pre1 = "pre @ ''[''"
      have I1: "?I = ?pre1 @ SerializeValue P v [] False d
                  @ (SerializeArray_loop P vs' (Suc 0) [] False d @ CHR '']'' # rest)"
        by (simp add: Cons elems_Cons)
      have ft: "Type (fst (NextToken ?I (Suc ?p))) \<in> value_start"
        using first_token [OF okv, of ?pre1 d "SerializeArray_loop P vs' (Suc 0) [] False d @ CHR '']'' # rest"]
        unfolding I1 [symmetric] by simp
      then have valid: "Type (fst (NextToken ?I (Suc ?p))) \<noteq> Invalid"
        and nend: "Type (fst (NextToken ?I (Suc ?p))) \<noteq> ArrayEnd"
        by (auto simp: value_start_def)
      have p1: "Json_Peek ?st0
          = st\<lparr>Tokenizer := cached ?I (Suc ?p), CurrentToken := fst (NextToken ?I (Suc ?p))\<rparr>"
        using Json_Peek_ready [of ?I "Suc ?p" ?st0] ready_cached [OF valid] valid by simp
      let ?st1 = "st\<lparr>Tokenizer := cached ?I (Suc ?p), CurrentToken := fst (NextToken ?I (Suc ?p))\<rparr>"
      have I2: "?I = ?pre1 @ ?E @ '']'' @ rest"
        by simp
      have r1: "ready (?pre1 @ ?E @ '']'' @ rest) (length ?pre1) (Tokenizer ?st1)"
        unfolding I2 [symmetric] using ready_cached [OF valid] by simp
      have e1: "ErrorMessage ?st1 = None" using e by simp
      have ne: "vs \<noteq> []" using Cons by simp
      obtain t where lp: "ParseArray_loop P m [] ?st1
           = Some (Inr (Some ([] @ vs),
               ?st1\<lparr>Tokenizer := cached (?pre1 @ ?E @ '']'' @ rest) (length ?pre1 + length ?E + 1),
                  CurrentToken := t\<rparr>))"
        using Ns [OF ne m(2) r1 e1] by blast
      have res: "ParseArray P (Suc m) st
          = Some (Inr (Some vs, st\<lparr>Tokenizer := cached ?I (Suc ?p + length ?E + 1), CurrentToken := t\<rparr>))"
        using c0 p1 nend lp [unfolded I2 [symmetric]]
        by (subst ParseArray.simps) (simp add: Let_def mk_token_def)
      show ?thesis
        unfolding I m(1)
        apply (rule exI [of _ t])
        using res by (simp add: add.assoc)
    qed
  qed
qed

lemma ParseObject_back:
  assumes bs: "ps \<noteq> [] \<Longrightarrow> back_members Ns P ps" and dist: "distinct (map fst ps)"
  shows "\<forall>n\<ge>Suc Ns. \<forall>(st :: 'f Json) pre rest d.
        ready (pre @ ''{'' @ SerializeObject_loop P ps 0 [] False d @ ''}'' @ rest) (length pre) (Tokenizer st) \<longrightarrow>
        ErrorMessage st = None \<longrightarrow>
        (\<exists>t. ParseObject P n st
           = Some (Inr (Some ps,
               st\<lparr>Tokenizer := cached (pre @ ''{'' @ SerializeObject_loop P ps 0 [] False d @ ''}'' @ rest)
                                  (length pre + length (SerializeObject_loop P ps 0 [] False d) + 2),
                  CurrentToken := t\<rparr>)))"
proof -
  have Ns: "\<And>n (st :: 'f Json) pre rest d acc. ps \<noteq> [] \<Longrightarrow> Ns \<le> n \<Longrightarrow>
        Tokenizer st = cached (pre @ SerializeObject_loop P ps 0 [] False d @ ''}'' @ rest) (length pre) \<Longrightarrow>
        CurrentToken st
          = fst (NextToken (pre @ SerializeObject_loop P ps 0 [] False d @ ''}'' @ rest) (length pre)) \<Longrightarrow>
        ErrorMessage st = None \<Longrightarrow> distinct (map fst (acc @ ps)) \<Longrightarrow>
        (\<exists>t. ParseObject_loop P n acc st
           = Some (Inr (Some (acc @ ps),
               st\<lparr>Tokenizer := cached (pre @ SerializeObject_loop P ps 0 [] False d @ ''}'' @ rest)
                                  (length pre + length (SerializeObject_loop P ps 0 [] False d) + 1),
                  CurrentToken := t\<rparr>)))"
    using bs unfolding back_members_def by blast
  show ?thesis
  proof (intro allI impI)
    fix n and st :: "'f Json" and pre rest d
    let ?F = "SerializeObject_loop P ps 0 [] False d"
    let ?I = "pre @ CHR ''{'' # ?F @ CHR ''}'' # rest"
    let ?p = "length pre"
    assume n: "Suc Ns \<le> n"
      and r: "ready (pre @ ''{'' @ ?F @ ''}'' @ rest) (length pre) (Tokenizer st)"
      and e: "ErrorMessage st = None"
    obtain m where m: "n = Suc m" "Ns \<le> m"
      using n by (cases n) auto
    have I: "pre @ ''{'' @ ?F @ ''}'' @ rest = ?I"
      by simp
    have r': "ready ?I ?p (Tokenizer st)"
      using r by simp
    have nt0: "NextToken ?I ?p = (mk_token ObjectStart ?p ''{'', Suc ?p)"
      using NextToken_structural(1) [of pre "?F @ CHR ''}'' # rest"] by simp
    have c0: "Consume st = st\<lparr>Tokenizer := cached ?I (Suc ?p), CurrentToken := mk_token ObjectStart ?p ''{''\<rparr>"
      using Consume_ready [OF r'] nt0 by (simp add: mk_token_def)
    let ?st0 = "st\<lparr>Tokenizer := cached ?I (Suc ?p), CurrentToken := mk_token ObjectStart ?p ''{''\<rparr>"
    show "\<exists>t. ParseObject P n st
           = Some (Inr (Some ps,
               st\<lparr>Tokenizer := cached (pre @ ''{'' @ ?F @ ''}'' @ rest) (length pre + length ?F + 2),
                  CurrentToken := t\<rparr>))"
    proof (cases ps)
      case Nil
      have E: "?F = []" by (simp add: Nil)
      have nt1: "NextToken ?I (Suc ?p) = (mk_token ObjectEnd (Suc ?p) ''}'', Suc (Suc ?p))"
        using NextToken_structural(2) [of "pre @ ''{''" rest] by (simp add: E)
      have valid: "Type (fst (NextToken ?I (Suc ?p))) \<noteq> Invalid"
        using nt1 by (simp add: mk_token_def)
      have p1: "Json_Peek ?st0
          = st\<lparr>Tokenizer := cached ?I (Suc ?p), CurrentToken := mk_token ObjectEnd (Suc ?p) ''}''\<rparr>"
        using Json_Peek_ready [of ?I "Suc ?p" ?st0] ready_cached [OF valid] valid nt1 by simp
      let ?st1 = "st\<lparr>Tokenizer := cached ?I (Suc ?p), CurrentToken := mk_token ObjectEnd (Suc ?p) ''}''\<rparr>"
      have c1: "Consume ?st1
          = st\<lparr>Tokenizer := cached ?I (Suc (Suc ?p)), CurrentToken := mk_token ObjectEnd (Suc ?p) ''}''\<rparr>"
        using Consume_ready [of ?I "Suc ?p" ?st1] ready_cached [OF valid] valid nt1 by simp
      have res: "ParseObject P (Suc m) st
          = Some (Inr (Some [],
              st\<lparr>Tokenizer := cached ?I (Suc (Suc ?p)), CurrentToken := mk_token ObjectEnd (Suc ?p) ''}''\<rparr>))"
        using c0 p1 c1
        by (subst ParseObject.simps) (simp add: Let_def mk_token_def)
      show ?thesis
        unfolding I m(1)
        apply (rule exI [of _ "mk_token ObjectEnd (Suc ?p) ''}''"])
        using res by (simp add: Nil)
    next
      case (Cons a ps')
      obtain k v where a: "a = (k, v)" by (cases a)
      let ?pre1 = "pre @ ''{''"
      have I1: "?I = ?pre1 @ CHR 0x22 # (k @ CHR 0x22 # CHR '':'' # CHR '' '' # SerializeValue P v [] False d
                  @ SerializeObject_loop P ps' (Suc 0) [] False d @ CHR ''}'' # rest)"
        by (simp add: Cons a members_Cons)
      have ft: "Type (fst (NextToken ?I (Suc ?p))) = String_t"
        using NextToken_String_type [of ?pre1 "k @ CHR 0x22 # CHR '':'' # CHR '' '' # SerializeValue P v [] False d
                  @ SerializeObject_loop P ps' (Suc 0) [] False d @ CHR ''}'' # rest"]
        unfolding I1 [symmetric] by simp
      then have valid: "Type (fst (NextToken ?I (Suc ?p))) \<noteq> Invalid"
        and nend: "Type (fst (NextToken ?I (Suc ?p))) \<noteq> ObjectEnd"
        by auto
      have p1: "Json_Peek ?st0
          = st\<lparr>Tokenizer := cached ?I (Suc ?p), CurrentToken := fst (NextToken ?I (Suc ?p))\<rparr>"
        using Json_Peek_ready [of ?I "Suc ?p" ?st0] ready_cached [OF valid] valid by simp
      let ?st1 = "st\<lparr>Tokenizer := cached ?I (Suc ?p), CurrentToken := fst (NextToken ?I (Suc ?p))\<rparr>"
      have I2: "?I = ?pre1 @ ?F @ ''}'' @ rest"
        by simp
      have t1: "Tokenizer ?st1 = cached (?pre1 @ ?F @ ''}'' @ rest) (length ?pre1)"
        unfolding I2 [symmetric] by simp
      have k1: "CurrentToken ?st1 = fst (NextToken (?pre1 @ ?F @ ''}'' @ rest) (length ?pre1))"
        unfolding I2 [symmetric] by simp
      have e1: "ErrorMessage ?st1 = None" using e by simp
      have ne: "ps \<noteq> []" using Cons by simp
      have d1: "distinct (map fst ([] @ ps))" using dist by simp
      obtain t where lp: "ParseObject_loop P m [] ?st1
           = Some (Inr (Some ([] @ ps),
               ?st1\<lparr>Tokenizer := cached (?pre1 @ ?F @ ''}'' @ rest) (length ?pre1 + length ?F + 1),
                  CurrentToken := t\<rparr>))"
        using Ns [OF ne m(2) t1 k1 e1 d1] by blast
      have res: "ParseObject P (Suc m) st
          = Some (Inr (Some ps, st\<lparr>Tokenizer := cached ?I (Suc ?p + length ?F + 1), CurrentToken := t\<rparr>))"
        using c0 p1 nend lp [unfolded I2 [symmetric]]
        by (subst ParseObject.simps) (simp add: Let_def mk_token_def)
      show ?thesis
        unfolding I m(1)
        apply (rule exI [of _ t])
        using res by (simp add: add.assoc)
    qed
  qed
qed

lemma back_Array:
  assumes bs: "vs \<noteq> [] \<Longrightarrow> back_elems Ns P vs" and ok: "roundtrip_ok_list P vs"
  shows "back_value (Suc (Suc Ns)) P (ArrayPtr vs)"
proof -
  define Na where "Na = Suc Ns"
  have Na: "\<And>n (st :: 'a Json) pre rest d. Na \<le> n \<Longrightarrow>
        ready (pre @ ''['' @ SerializeArray_loop P vs 0 [] False d @ '']'' @ rest) (length pre) (Tokenizer st) \<Longrightarrow>
        ErrorMessage st = None \<Longrightarrow>
        (\<exists>t. ParseArray P n st
           = Some (Inr (Some vs,
               st\<lparr>Tokenizer := cached (pre @ ''['' @ SerializeArray_loop P vs 0 [] False d @ '']'' @ rest)
                                  (length pre + length (SerializeArray_loop P vs 0 [] False d) + 2),
                  CurrentToken := t\<rparr>)))"
    using ParseArray_back [OF bs ok] unfolding Na_def by blast
  show ?thesis
    unfolding Na_def [symmetric]
  proof (rule back_value_I [where N = Na])
    fix m and st :: "'a Json" and pre rest d
    let ?E = "SerializeArray_loop P vs 0 [] False (Suc d)"
    let ?I = "pre @ CHR ''['' # ?E @ CHR '']'' # rest"
    let ?p = "length pre"
    assume r: "ready (pre @ SerializeValue P (ArrayPtr vs) [] False d @ rest) (length pre) (Tokenizer st)"
      and e: "ErrorMessage st = None"
    have I: "pre @ SerializeValue P (ArrayPtr vs) [] False d @ rest = ?I"
      by (simp add: txt_Array)
    have len: "length (SerializeValue P (ArrayPtr vs) [] False d) = length ?E + 2"
      by (simp add: txt_Array)
    have r': "ready ?I ?p (Tokenizer st)"
      using r unfolding I .
    have nt0: "NextToken ?I ?p = (mk_token ArrayStart ?p ''['', Suc ?p)"
      using NextToken_structural(3) [of pre "?E @ CHR '']'' # rest"] by simp
    have valid: "Type (fst (NextToken ?I ?p)) \<noteq> Invalid"
      using nt0 by (simp add: mk_token_def)
    have p0: "Json_Peek st = st\<lparr>Tokenizer := cached ?I ?p, CurrentToken := mk_token ArrayStart ?p ''[''\<rparr>"
      using Json_Peek_ready [OF r' valid] nt0 by simp
    let ?st0 = "st\<lparr>Tokenizer := cached ?I ?p, CurrentToken := mk_token ArrayStart ?p ''[''\<rparr>"
    have I2: "?I = pre @ ''['' @ ?E @ '']'' @ rest"
      by simp
    have r0: "ready (pre @ ''['' @ ?E @ '']'' @ rest) (length pre) (Tokenizer ?st0)"
      unfolding I2 [symmetric] using ready_cached [OF valid] by simp
    have e0: "ErrorMessage ?st0 = None" using e by simp
    obtain t where pa: "ParseArray P (Na + m) ?st0
           = Some (Inr (Some vs,
               ?st0\<lparr>Tokenizer := cached (pre @ ''['' @ ?E @ '']'' @ rest) (length pre + length ?E + 2),
                  CurrentToken := t\<rparr>))"
      using Na [OF _ r0 e0, of "Na + m"] by auto
    have res: "ParseValue P (Suc (Na + m)) st
        = Some (Inr (ArrayPtr vs, st\<lparr>Tokenizer := cached ?I (?p + length ?E + 2), CurrentToken := t\<rparr>))"
      using p0 pa [unfolded I2 [symmetric]]
      by (subst ParseValue.simps) (simp add: Let_def mk_token_def)
    show "\<exists>t. ParseValue P (Suc (Na + m)) st
           = Some (Inr (ArrayPtr vs,
                st\<lparr>Tokenizer := cached (pre @ SerializeValue P (ArrayPtr vs) [] False d @ rest)
                                  (length pre + length (SerializeValue P (ArrayPtr vs) [] False d)),
                               CurrentToken := t\<rparr>))"
      unfolding I len
      apply (rule exI [of _ t])
      using res by simp
  qed
qed

lemma back_Object:
  assumes bs: "ps \<noteq> [] \<Longrightarrow> back_members Ns P ps" and dist: "distinct (map fst ps)"
  shows "back_value (Suc (Suc Ns)) P (ObjectPtr ps)"
proof -
  define Na where "Na = Suc Ns"
  have Na: "\<And>n (st :: 'a Json) pre rest d. Na \<le> n \<Longrightarrow>
        ready (pre @ ''{'' @ SerializeObject_loop P ps 0 [] False d @ ''}'' @ rest) (length pre) (Tokenizer st) \<Longrightarrow>
        ErrorMessage st = None \<Longrightarrow>
        (\<exists>t. ParseObject P n st
           = Some (Inr (Some ps,
               st\<lparr>Tokenizer := cached (pre @ ''{'' @ SerializeObject_loop P ps 0 [] False d @ ''}'' @ rest)
                                  (length pre + length (SerializeObject_loop P ps 0 [] False d) + 2),
                  CurrentToken := t\<rparr>)))"
    using ParseObject_back [OF bs dist] unfolding Na_def by blast
  show ?thesis
    unfolding Na_def [symmetric]
  proof (rule back_value_I [where N = Na])
    fix m and st :: "'a Json" and pre rest d
    let ?E = "SerializeObject_loop P ps 0 [] False (Suc d)"
    let ?I = "pre @ CHR ''{'' # ?E @ CHR ''}'' # rest"
    let ?p = "length pre"
    assume r: "ready (pre @ SerializeValue P (ObjectPtr ps) [] False d @ rest) (length pre) (Tokenizer st)"
      and e: "ErrorMessage st = None"
    have I: "pre @ SerializeValue P (ObjectPtr ps) [] False d @ rest = ?I"
      by (simp add: txt_Object)
    have len: "length (SerializeValue P (ObjectPtr ps) [] False d) = length ?E + 2"
      by (simp add: txt_Object)
    have r': "ready ?I ?p (Tokenizer st)"
      using r unfolding I .
    have nt0: "NextToken ?I ?p = (mk_token ObjectStart ?p ''{'', Suc ?p)"
      using NextToken_structural(1) [of pre "?E @ CHR ''}'' # rest"] by simp
    have valid: "Type (fst (NextToken ?I ?p)) \<noteq> Invalid"
      using nt0 by (simp add: mk_token_def)
    have p0: "Json_Peek st = st\<lparr>Tokenizer := cached ?I ?p, CurrentToken := mk_token ObjectStart ?p ''{''\<rparr>"
      using Json_Peek_ready [OF r' valid] nt0 by simp
    let ?st0 = "st\<lparr>Tokenizer := cached ?I ?p, CurrentToken := mk_token ObjectStart ?p ''{''\<rparr>"
    have I2: "?I = pre @ ''{'' @ ?E @ ''}'' @ rest"
      by simp
    have r0: "ready (pre @ ''{'' @ ?E @ ''}'' @ rest) (length pre) (Tokenizer ?st0)"
      unfolding I2 [symmetric] using ready_cached [OF valid] by simp
    have e0: "ErrorMessage ?st0 = None" using e by simp
    obtain t where pa: "ParseObject P (Na + m) ?st0
           = Some (Inr (Some ps,
               ?st0\<lparr>Tokenizer := cached (pre @ ''{'' @ ?E @ ''}'' @ rest) (length pre + length ?E + 2),
                  CurrentToken := t\<rparr>))"
      using Na [OF _ r0 e0, of "Na + m"] by auto
    have res: "ParseValue P (Suc (Na + m)) st
        = Some (Inr (ObjectPtr ps, st\<lparr>Tokenizer := cached ?I (?p + length ?E + 2), CurrentToken := t\<rparr>))"
      using p0 pa [unfolded I2 [symmetric]]
      by (subst ParseValue.simps) (simp add: Let_def mk_token_def)
    show "\<exists>t. ParseValue P (Suc (Na + m)) st
           = Some (Inr (ObjectPtr ps,
                st\<lparr>Tokenizer := cached (pre @ SerializeValue P (ObjectPtr ps) [] False d @ rest)
                                  (length pre + length (SerializeValue P (ObjectPtr ps) [] False d)),
                               CurrentToken := t\<rparr>))"
      unfolding I len
      apply (rule exI [of _ t])
      using res by simp
  qed
qed

subsection \<open>The whole tree\<close>

lemma back_all:
  "roundtrip_ok P v \<Longrightarrow> back_value (fuel_value v) P v"
  "roundtrip_ok_list P vs \<Longrightarrow> vs \<noteq> [] \<Longrightarrow> back_elems (fuel_elems vs) P vs"
  "roundtrip_ok_members P ps \<Longrightarrow> ps \<noteq> [] \<Longrightarrow> back_members (fuel_members ps) P ps"
proof (induction P v and P vs and P ps rule: roundtrip_ok_roundtrip_ok_list_roundtrip_ok_members.induct)
  case (1 P)
  then show ?case by simp
next
  case (2 P)
  show ?case by (simp add: back_Null)
next
  case (3 P b)
  show ?case by (simp add: back_Bool)
next
  case (4 P i)
  show ?case by (simp add: back_Int64)
next
  case (5 P d)
  then show ?case by (simp add: back_Double)
next
  case (6 P s)
  then show ?case by (simp add: back_String)
next
  case (7 P vs)
  then show ?case by (simp add: back_Array)
next
  case (8 P ps)
  then show ?case by (simp add: back_Object)
next
  case (9 P)
  then show ?case by simp
next
  case (10 P v vs)
  then show ?case by (simp add: back_elems_Cons)
next
  case (11 P)
  then show ?case by simp
next
  case (12 P k v ps)
  then show ?case by (simp add: back_members_Cons)
qed

text \<open>
  Claim C1, amended. Take a tree rooted at an object with no undefined slot, with distinct
  keys in every object, whose strings and keys have no quote, no backslash and no NUL
  character, and whose floating-point values are printed by \<^verbatim>\<open>std::to_string\<close> as a
  non-empty text of number characters only that holds a \<^verbatim>\<open>.\<close> or an \<^verbatim>\<open>e\<close> and that
  \<^verbatim>\<open>std::stod\<close> reads back as the same value (finite values that six decimals determine;
  not the infinities and NaN, printed as \<^verbatim>\<open>inf\<close> and \<^verbatim>\<open>nan\<close>). Then \<^verbatim>\<open>Parse\<close> applied to the compact
  serialization of the tree returns, given the fuel of the tree or more, records no error
  and leaves a root object equal to the tree: the same members with the same values, arrays
  in the same order. The members are listed in the order in which the serializer visits
  them, whichever that is.
\<close>

theorem C1_round_trip:
  assumes ok: "roundtrip_ok P (ObjectPtr root)" and n: "fuel_value (ObjectPtr root) \<le> n"
  shows "\<exists>st. Parse_fuel P n (Serialize P (doc\<lparr>RootObject := Some root\<rparr>) False) doc' = Some (Inr st) \<and>
           \<not> HasError st \<and> RootObject st = Some root"
proof -
  have dist: "distinct (map fst root)" and okm: "roundtrip_ok_members P root"
    using ok by simp_all
  have N: "\<And>n (st :: 'a Json) pre rest d. Suc (fuel_members root) \<le> n \<Longrightarrow>
        ready (pre @ ''{'' @ SerializeObject_loop P root 0 [] False d @ ''}'' @ rest) (length pre) (Tokenizer st) \<Longrightarrow>
        ErrorMessage st = None \<Longrightarrow>
        (\<exists>t. ParseObject P n st
           = Some (Inr (Some root,
               st\<lparr>Tokenizer := cached (pre @ ''{'' @ SerializeObject_loop P root 0 [] False d @ ''}'' @ rest)
                                  (length pre + length (SerializeObject_loop P root 0 [] False d) + 2),
                  CurrentToken := t\<rparr>)))"
    using ParseObject_back [OF back_all(3) [OF okm] dist] by blast
  have n': "Suc (fuel_members root) \<le> n"
    using n by simp
  let ?F = "SerializeObject_loop P root 0 [] False 0"
  let ?I = "[] @ ''{'' @ ?F @ ''}'' @ []"
  let ?st = "doc'\<lparr>Tokenizer := Init ?I, ErrorMessage := None\<rparr>"
  have ser: "Serialize P (doc\<lparr>RootObject := Some root\<rparr>) False = ?I"
    by (simp add: Serialize_def SerializeObject_compact del: SerializeObject.simps)
  have r: "ready ?I (length ([] :: string)) (Tokenizer ?st)"
    using ready_Init [of ?I] by simp
  obtain t where po: "ParseObject P n ?st
         = Some (Inr (Some root,
             ?st\<lparr>Tokenizer := cached ?I (length ([] :: string) + length ?F + 2), CurrentToken := t\<rparr>))"
    using N [OF n' r] by auto
  show ?thesis
    unfolding ser Parse_fuel_def using po by (simp add: HasError_def)
qed

text \<open>
  Claim C1, as stated, fails: the string \<^verbatim>\<open>a\b\<close> has no quote and no control character, is
  written as it is, and is read back as \<^verbatim>\<open>ab\<close>, with no error recorded.
\<close>

theorem C1_backslash_counterexample:
  "map_option (map_sum id HasError)
     (Parse_fuel whole_doubles (Suc (Suc (Suc 0)))
        (Serialize whole_doubles
           (Json_new\<lparr>RootObject := Some [(''k'', String [CHR ''a'', CHR 0x5C, CHR ''b''])]\<rparr>) False)
        Json_new) = Some (Inr False) \<and>
   map_option (map_sum id RootObject)
     (Parse_fuel whole_doubles (Suc (Suc (Suc 0)))
        (Serialize whole_doubles
           (Json_new\<lparr>RootObject := Some [(''k'', String [CHR ''a'', CHR 0x5C, CHR ''b''])]\<rparr>) False)
        Json_new) = Some (Inr (Some [(''k'', String ''ab'')]))"
  by (simp add: Serialize_def SerializeValue.simps SerializeObject_loop.simps
      ParseValue.simps ParseObject.simps ParseObject_loop.simps parse_eval tok_eval)

text \<open>An instance of the amended claim, with a member of every kind.\<close>

lemma example_tree_ok:
  "roundtrip_ok whole_doubles
     (ObjectPtr [(''a'', Int64 (- 1)),
                 (''b'', ArrayPtr [Null, Bool True, Double 3, String ''x'']),
                 (''c'', ObjectPtr [])])"
  by (simp add: plain_def float_text_ok_def whole_doubles_def to_string_int64_def to_string_nat_digit
      digit_char_def IsValidNumberChar_def isdigit_def IsFloat_def stoll_def isspace_def
      digits_value_def digit_val_def Let_def)

theorem C1_round_trip_witness:
  "roundtrip_ok whole_doubles
     (ObjectPtr [(''a'', Int64 (- 1)),
                 (''b'', ArrayPtr [Null, Bool True, Double 3, String ''x'']),
                 (''c'', ObjectPtr [])]) \<and>
   fuel_value (ObjectPtr [(''a'', Int64 (- 1)),
                 (''b'', ArrayPtr [Null, Bool True, Double 3, String ''x'']),
                 (''c'', ObjectPtr [])] :: int JsonValue) \<le> 11 \<and>
   (\<exists>st.
      Parse_fuel whole_doubles 11
        (Serialize whole_doubles
           (Json_new\<lparr>RootObject := Some [(''a'', Int64 (- 1)),
                 (''b'', ArrayPtr [Null, Bool True, Double 3, String ''x'']),
                 (''c'', ObjectPtr [])]\<rparr>) False)
        Json_new = Some (Inr st) \<and>
      \<not> HasError st \<and>
      RootObject st = Some [(''a'', Int64 (- 1)),
                 (''b'', ArrayPtr [Null, Bool True, Double 3, String ''x'']),
                 (''c'', ObjectPtr [])])"
proof -
  have f: "fuel_value (ObjectPtr [(''a'', Int64 (- 1)),
                 (''b'', ArrayPtr [Null, Bool True, Double 3, String ''x'']),
                 (''c'', ObjectPtr [])] :: int JsonValue) \<le> 11"
    by simp
  from C1_round_trip [OF example_tree_ok f, of Json_new Json_new] example_tree_ok f
  show ?thesis by blast
qed

section \<open>Undefined members in the compact text\<close>













end
